theory Spec2Isabelle
  imports Main "HOL-Library.Multiset" "HOL-Library.Char_ord" "HOL-Library.List_Lexorder"
begin

section \<open>The crawler of \<^verbatim>\<open>crawler.py\<close>\<close>

text \<open>
  A shallow embedding of the class \<^verbatim>\<open>Crawler\<close>. Python strings are modelled as
  \<^typ>\<open>string\<close>; the mutable attributes of the object are the fields of the record
  \<open>crawler\<close>, which every method takes and returns; a raised exception is the
  \<open>Inl\<close> of a sum.
\<close>

subsection \<open>What the crawler calls but does not define\<close>

text \<open>
  The functions of \<^verbatim>\<open>urllib.parse\<close>, \<^verbatim>\<open>cgi\<close>, \<^verbatim>\<open>bs4\<close> and \<^verbatim>\<open>re\<close> and the
  string method that the crawler calls are not part of the repository. They are
  parameters of the model, collected in the record \<open>env\<close>; no theorem below assumes
  anything about what they compute unless it says so.

  A Python string is a sequence of Unicode code points, a \<^typ>\<open>string\<close> a sequence of
  bytes: a \<^typ>\<open>string\<close> stands for the Python string it encodes in UTF-8. The
  encoding is one-to-one, and an ASCII character is one byte that occurs in no other
  character's encoding; so equality of strings, concatenation, and testing for and
  removing an ASCII prefix are on the bytes what they are in Python. What depends on
  the Unicode character database (\<^verbatim>\<open>str.lower()\<close>, the class \<^verbatim>\<open>\d\<close>) is a parameter.

  \<^item> \<open>urlparse\<close>: of \<^verbatim>\<open>urllib.parse.urlparse(url)\<close> the crawler reads the scheme
    and the netloc only.
  \<^item> \<open>splitport\<close>: \<^verbatim>\<open>urllib.parse.splitport(netloc)\<close>, the pair of host and port.
  \<^item> \<open>urljoin\<close>, \<open>urldefrag\<close>: \<^verbatim>\<open>urllib.parse.urljoin(base, url)\<close> and
    \<^verbatim>\<open>urllib.parse.urldefrag(url)\<close>.
  \<^item> \<open>parse_header\<close>: \<^verbatim>\<open>cgi.parse_header(line)\<close>, the main value and the
    dictionary of parameters.
  \<^item> \<open>soup\<close>: \<^verbatim>\<open>BeautifulSoup(text, 'html.parser', parse_only=SoupStrainer(...))\<close>
    for the four strainers the crawler uses: for \<open>Anchor\<close> the \<^verbatim>\<open>href\<close> values of the
    tags found, for the others the tags found.
  \<^item> \<open>set_iter\<close>: the order in which a \<^verbatim>\<open>for\<close> loop visits the elements of a Python
    set, which the language leaves open.
  \<^item> \<open>lower\<close>: \<^verbatim>\<open>str.lower()\<close>, for every Python string.
  \<^item> \<open>digits_dots\<close>: whether \<^verbatim>\<open>re.match(r'\A[\d\.]*\Z', s)\<close> finds a match, that is
    whether the whole of \<^verbatim>\<open>s\<close> (the empty string included) consists of dots and of
    characters of the class \<^verbatim>\<open>\d\<close>, which holds every Unicode decimal digit.
\<close>

record parse_result =
  scheme :: string
  netloc :: string

datatype strainer = Anchor | Stylesheet | Img | Script

record env =
  urlparse :: "string \<Rightarrow> parse_result"
  splitport :: "string \<Rightarrow> string \<times> string option"
  urljoin :: "string \<Rightarrow> string \<Rightarrow> string"
  urldefrag :: "string \<Rightarrow> string \<times> string"
  parse_header :: "string \<Rightarrow> string \<times> (string \<rightharpoonup> string)"
  soup :: "strainer \<Rightarrow> string \<Rightarrow> string list"
  set_iter :: "string set \<Rightarrow> string list"
  lower :: "string \<Rightarrow> string"
  digits_dots :: "string \<Rightarrow> bool"

text \<open>
  A loop over a finite set visits every element once. This is the only fact about the
  iteration order that a theorem below may assume.
\<close>

definition set_iteration :: "env \<Rightarrow> bool" where
  "set_iteration e = (\<forall>S. finite S \<longrightarrow> set (set_iter e S) = S \<and> distinct (set_iter e S))"

subsection \<open>Strings\<close>

text \<open>
  On a string of ASCII characters the two string parameters are known:
  \<^verbatim>\<open>str.lower()\<close> maps the letters \<^verbatim>\<open>A\<close> to \<^verbatim>\<open>Z\<close> to \<^verbatim>\<open>a\<close> to \<^verbatim>\<open>z\<close> and leaves
  every other ASCII character as it is (\<open>ascii_lower\<close>), and the only ASCII characters
  of the class \<^verbatim>\<open>[\d\.]\<close> are the ten digits and the dot (\<open>digit_or_dot\<close>).
  \<open>ascii_strings\<close> says so of an environment. It says nothing of a string with any
  other character, on which \<^verbatim>\<open>str.lower()\<close> and \<^verbatim>\<open>\d\<close> follow the Unicode tables.
\<close>

definition ascii_lower_char :: "char \<Rightarrow> char" where
  "ascii_lower_char ch =
     (case map_of (zip ''ABCDEFGHIJKLMNOPQRSTUVWXYZ'' ''abcdefghijklmnopqrstuvwxyz'') ch of
        None \<Rightarrow> ch
      | Some l \<Rightarrow> l)"

definition ascii_lower :: "string \<Rightarrow> string" where
  "ascii_lower s = map ascii_lower_char s"

definition digit_or_dot :: "char \<Rightarrow> bool" where
  "digit_or_dot ch = (ch \<in> set ''0123456789.'')"

definition is_ascii :: "string \<Rightarrow> bool" where
  "is_ascii s = list_all (\<lambda>ch. \<not> digit7 ch) s"

definition ascii_strings :: "env \<Rightarrow> bool" where
  "ascii_strings e =
     (\<forall>s. is_ascii s \<longrightarrow>
        lower e s = ascii_lower s \<and> digits_dots e s = list_all digit_or_dot s)"

definition startswith :: "string \<Rightarrow> string \<Rightarrow> bool" where
  "startswith s p = (take (length p) s = p)"

subsection \<open>The queue\<close>

text \<open>
  \<^verbatim>\<open>asyncio.Queue\<close> (\<^verbatim>\<open>JoinableQueue\<close> on Python 3.4): the items in order and the
  counter of unfinished tasks, which \<^verbatim>\<open>put_nowait\<close> increments and \<^verbatim>\<open>task_done\<close>
  decrements. \<^verbatim>\<open>join()\<close> returns once the counter is zero.
\<close>

record queue =
  items :: "(string \<times> int) list"
  unfinished_tasks :: nat

definition Queue :: queue where
  "Queue = \<lparr>items = [], unfinished_tasks = 0\<rparr>"

definition put_nowait :: "queue \<Rightarrow> string \<times> int \<Rightarrow> queue" where
  "put_nowait qu item =
     qu\<lparr>items := items qu @ [item], unfinished_tasks := unfinished_tasks qu + 1\<rparr>"

definition task_done :: "queue \<Rightarrow> queue" where
  "task_done qu = qu\<lparr>unfinished_tasks := unfinished_tasks qu - 1\<rparr>"

definition joined :: "queue \<Rightarrow> bool" where
  "joined qu = (unfinished_tasks qu = 0)"

subsection \<open>Data of the crawler\<close>

record fetch_statistic =
  fs_url :: string
  fs_next_url :: "string option"
  fs_status :: int
  fs_exception :: "string option"
  fs_size :: nat
  fs_content_type :: "string option"
  fs_encoding :: "string option"
  fs_num_urls :: nat
  fs_num_new_urls :: nat

text \<open>
  An \<^verbatim>\<open>aiohttp\<close> response: its URL, status and headers, and what \<^verbatim>\<open>read()\<close> and
  \<^verbatim>\<open>text()\<close> return. The headers are looked up by the lower-case names the crawler
  uses.
\<close>

record response =
  resp_url :: string
  resp_status :: int
  resp_headers :: "string \<rightharpoonup> string"
  resp_body :: string
  resp_text :: string

record sitemap_entry =
  sm_assets :: "string list list"
  sm_links :: "string set"

record crawler =
  root :: string
  max_redirect :: int
  max_tasks :: int
  q :: queue
  seen_urls :: "string set"
  visited :: "fetch_statistic list"
  root_domain :: string
  sitemap :: "string \<rightharpoonup> sitemap_entry"

datatype error = KeyError string | AssertionError

subsection \<open>The methods\<close>

definition extract_domain :: "env \<Rightarrow> string \<Rightarrow> string" where
  "extract_domain e r =
     (let parts = urlparse e r;
          (host, port) = splitport e (netloc parts)
      in if digits_dots e host then host else lower e host)"

definition is_redirect :: "response \<Rightarrow> bool" where
  "is_redirect resp = (resp_status resp \<in> {300, 301, 302, 303, 307})"

definition host_okay :: "env \<Rightarrow> crawler \<Rightarrow> string \<Rightarrow> bool" where
  "host_okay e c host0 =
     (let host = lower e host0 in
      if host = root_domain c then True
      else if digits_dots e host then False
      else (let host' = (if startswith host ''www.'' then drop 4 host else ''www.'' @ host)
            in host' = root_domain c))"

definition record_statistic :: "crawler \<Rightarrow> fetch_statistic \<Rightarrow> crawler" where
  "record_statistic c st = c\<lparr>visited := visited c @ [st]\<rparr>"

definition update_sitemap :: "env \<Rightarrow> crawler \<Rightarrow> string \<Rightarrow> string \<Rightarrow> string set \<Rightarrow> crawler" where
  "update_sitemap e c u txt urls =
     c\<lparr>sitemap := (sitemap c)(u \<mapsto>
         \<lparr>sm_assets = [soup e Stylesheet txt, soup e Img txt, soup e Script txt],
          sm_links = urls\<rparr>)\<rparr>"

definition normalize_url :: "env \<Rightarrow> string \<Rightarrow> response \<Rightarrow> string" where
  "normalize_url e u resp = fst (urldefrag e (urljoin e (resp_url resp) u))"

definition url_allowed :: "env \<Rightarrow> crawler \<Rightarrow> string \<Rightarrow> bool" where
  "url_allowed e c u =
     (let parts = urlparse e u in
      if scheme parts \<notin> {''http'', ''https''} then False
      else (let (host, port) = splitport e (netloc parts) in
            if \<not> host_okay e c host then False else True))"

text \<open>
  \<^verbatim>\<open>parse_response\<close> returns the statistic and the set of links; it also writes the
  sitemap, so the model returns the crawler as well. The loop over \<^verbatim>\<open>urls\<close> only adds
  to two sets, so its result does not depend on the order of iteration.
\<close>

definition parse_response ::
  "env \<Rightarrow> crawler \<Rightarrow> response \<Rightarrow> string \<Rightarrow> fetch_statistic \<times> string set \<times> crawler" where
  "parse_response e c resp u =
     (let body = resp_body resp;
          (content_type, encoding, links, c') =
            (if resp_status resp = 200 then
               (let (content_type, pdict) =
                      (case resp_headers resp ''content-type'' of
                         None \<Rightarrow> (None, Map.empty)
                       | Some v \<Rightarrow>
                           if v \<noteq> [] then (let (t, p) = parse_header e v in (Some t, p))
                           else (Some v, Map.empty));
                    encoding = (case pdict ''charset'' of None \<Rightarrow> ''utf-8'' | Some x \<Rightarrow> x)
                in if content_type \<in> {Some ''text/html'', Some ''application/xml''} then
                     (let txt = resp_text resp;
                          urls = set (soup e Anchor txt);
                          normalized_urls = (\<lambda>x. normalize_url e x resp) ` urls;
                          links = Set.filter (url_allowed e c) normalized_urls
                      in (content_type, Some encoding, links,
                          update_sitemap e c (resp_url resp) txt normalized_urls))
                   else (content_type, Some encoding, {}, c))
             else (None, None, {}, c));
          stat = \<lparr>fs_url = resp_url resp, fs_next_url = None, fs_status = resp_status resp,
                   fs_exception = None, fs_size = length body,
                   fs_content_type = content_type, fs_encoding = encoding,
                   fs_num_urls = card links, fs_num_new_urls = card (links - seen_urls c')\<rparr>
      in (stat, links, c'))"

definition add_url :: "crawler \<Rightarrow> string \<Rightarrow> int option \<Rightarrow> crawler" where
  "add_url c u mr0 =
     (let mr = (case mr0 of None \<Rightarrow> max_redirect c | Some m \<Rightarrow> m) in
      c\<lparr>seen_urls := insert u (seen_urls c), q := put_nowait (q c) (u, mr)\<rparr>)"

definition process_redirect :: "env \<Rightarrow> crawler \<Rightarrow> response \<Rightarrow> string \<Rightarrow> int \<Rightarrow> error + crawler" where
  "process_redirect e c resp u mr =
     (case resp_headers resp ''location'' of
        None \<Rightarrow> Inl (KeyError ''location'')
      | Some location \<Rightarrow>
          (let next_url = urljoin e u location in
           if next_url \<in> seen_urls c then Inr c
           else if mr > 0 then Inr (add_url c next_url (Some (mr - 1)))
           else Inr c))"

text \<open>
  \<^verbatim>\<open>fetch\<close>: the last argument is what \<^verbatim>\<open>session.get\<close> produced, \<open>None\<close> for an
  \<^verbatim>\<open>aiohttp.ClientError\<close>. Releasing the response changes nothing of the crawler.
\<close>

definition fetch :: "env \<Rightarrow> crawler \<Rightarrow> string \<Rightarrow> int \<Rightarrow> response option \<Rightarrow> error + crawler" where
  "fetch e c u mr got =
     (case got of
        None \<Rightarrow> Inr c
      | Some resp \<Rightarrow>
          if is_redirect resp then process_redirect e c resp u mr
          else (let (stat, links, c1) = parse_response e c resp u;
                    c2 = record_statistic c1 stat;
                    c3 = fold (\<lambda>link s. s\<lparr>q := put_nowait (q s) (link, max_redirect s)\<rparr>)
                           (set_iter e (links - seen_urls c2)) c2
                in Inr (c3\<lparr>seen_urls := seen_urls c3 \<union> links\<rparr>)))"

text \<open>\<^verbatim>\<open>Crawler.__init__\<close>: the fields, then \<^verbatim>\<open>self.add_url(root)\<close>.\<close>

definition init :: "env \<Rightarrow> string \<Rightarrow> int \<Rightarrow> int \<Rightarrow> crawler" where
  "init e r mr mt =
     add_url \<lparr>root = r, max_redirect = mr, max_tasks = mt, q = Queue, seen_urls = {},
              visited = [], root_domain = extract_domain e r, sitemap = Map.empty\<rparr> r None"

subsection \<open>The workers\<close>

text \<open>
  \<^verbatim>\<open>crawl\<close> starts \<^verbatim>\<open>max_tasks\<close> tasks running \<^verbatim>\<open>work\<close> on one event loop and
  waits in \<^verbatim>\<open>q.join()\<close>. A task runs alone until it waits, so the crawl is modelled by
  the blocks of code between two waits, each one step of one task:
  \<^item> \<open>Waiting\<close>: in \<^verbatim>\<open>q.get()\<close>. When the queue has an item the task takes it, checks
    the assertion and calls \<^verbatim>\<open>session.get\<close>.
  \<^item> \<open>Fetching u mr\<close>: in \<^verbatim>\<open>session.get\<close>, \<^verbatim>\<open>response.read()\<close> or
    \<^verbatim>\<open>response.text()\<close>. Nothing of the crawler is read or written before the last
    of them returns, so the rest of \<^verbatim>\<open>fetch\<close> up to \<^verbatim>\<open>response.release()\<close> is one
    step. After a client error \<^verbatim>\<open>fetch\<close> returns at once and \<^verbatim>\<open>task_done\<close>
    follows in the same step.
  \<^item> \<open>Releasing x\<close>: in \<^verbatim>\<open>response.release()\<close>, with the exception \<open>x\<close> pending if the
    body of the \<^verbatim>\<open>try\<close> raised one. Without one, \<^verbatim>\<open>task_done\<close> follows and the task
    is back in \<^verbatim>\<open>q.get()\<close>.
  \<^item> \<open>Failed x\<close>: the exception \<open>x\<close> left \<^verbatim>\<open>work\<close>, which only catches
    \<^verbatim>\<open>CancelledError\<close>; the task has ended and will not call \<^verbatim>\<open>task_done\<close>.
  The network is a function from the URL to what \<^verbatim>\<open>session.get\<close> produces, \<open>None\<close>
  for a client error.
\<close>

datatype task = Waiting | Fetching string int | Releasing "error option" | Failed error

record pool =
  self :: crawler
  workers :: "task list"

definition crawl :: "crawler \<Rightarrow> pool" where
  "crawl c = \<lparr>self = c, workers = replicate (nat (max_tasks c)) Waiting\<rparr>"

definition work_step :: "env \<Rightarrow> (string \<Rightarrow> response option) \<Rightarrow> pool \<Rightarrow> nat \<Rightarrow> pool option" where
  "work_step e net s i =
     (if i < length (workers s) then
        (case workers s ! i of
           Waiting \<Rightarrow>
             (case items (q (self s)) of
                [] \<Rightarrow> None
              | (u, mr) # rest \<Rightarrow>
                  Some \<lparr>self = (self s)\<lparr>q := (q (self s))\<lparr>items := rest\<rparr>\<rparr>,
                        workers = (workers s)
                          [i := if u \<in> seen_urls (self s) then Fetching u mr
                                else Failed AssertionError]\<rparr>)
         | Fetching u mr \<Rightarrow>
             (case fetch e (self s) u mr (net u) of
                Inl x \<Rightarrow> Some (s\<lparr>workers := (workers s)[i := Releasing (Some x)]\<rparr>)
              | Inr c \<Rightarrow>
                  if net u = None
                  then Some \<lparr>self = c\<lparr>q := task_done (q c)\<rparr>,
                             workers = (workers s)[i := Waiting]\<rparr>
                  else Some \<lparr>self = c, workers = (workers s)[i := Releasing None]\<rparr>)
         | Releasing None \<Rightarrow>
             Some \<lparr>self = (self s)\<lparr>q := task_done (q (self s))\<rparr>,
                   workers = (workers s)[i := Waiting]\<rparr>
         | Releasing (Some x) \<Rightarrow> Some (s\<lparr>workers := (workers s)[i := Failed x]\<rparr>)
         | Failed x \<Rightarrow> None)
      else None)"

definition step :: "env \<Rightarrow> (string \<Rightarrow> response option) \<Rightarrow> pool \<Rightarrow> pool \<Rightarrow> bool" where
  "step e net s s' = (\<exists>i < length (workers s). work_step e net s i = Some s')"

text \<open>\<^verbatim>\<open>q.join()\<close> returns, and \<^verbatim>\<open>crawl\<close> cancels the tasks and ends.\<close>

definition drained :: "pool \<Rightarrow> bool" where
  "drained s = joined (q (self s))"

subsection \<open>The scope policy as the specification words it\<close>

text \<open>
  The specification's algorithm for the domain scope, written from its words and not
  from the code: lower-case the host; an exact match with the root domain is in scope;
  a host of digits and dots only is out of scope; otherwise a leading \<^verbatim>\<open>www.\<close> is
  stripped if present and prepended if not, and the host is in scope when the result
  is the root domain. Lower-casing is Python's, and a digit is a decimal digit of any
  script, as for Python's \<^verbatim>\<open>\d\<close>.
\<close>

definition in_scope :: "env \<Rightarrow> string \<Rightarrow> string \<Rightarrow> bool" where
  "in_scope e rd host =
     (let h = lower e host in
      h = rd \<or>
      (\<not> digits_dots e h \<and>
       (case h of
          CHR ''w'' # CHR ''w'' # CHR ''w'' # CHR ''.'' # rest \<Rightarrow> rest = rd
        | _ \<Rightarrow> CHR ''w'' # CHR ''w'' # CHR ''w'' # CHR ''.'' # h = rd)))"

subsection \<open>An environment and two sites for the examples\<close>

text \<open>
  Stand-ins for the library functions, for the examples only. They return what the
  Python functions return on the strings the examples use: URLs of the form
  \<^verbatim>\<open>scheme://host/path#fragment\<close> without a port, links that are absolute URLs or
  absolute paths, header values without parameters, and pages whose only tags are
  anchors written \<^verbatim>\<open><a href=...>\<close>. Sets are visited in lexicographic order, and
  \<^verbatim>\<open>str.lower()\<close> and \<^verbatim>\<open>\d\<close> are what they are on ASCII strings.
\<close>

definition example_urlparse :: "string \<Rightarrow> parse_result" where
  "example_urlparse u =
     (let sch = takeWhile (\<lambda>ch. ch \<noteq> CHR '':'') u;
          rest = drop (length sch + 1) u
      in \<lparr>scheme = ascii_lower sch,
          netloc = (if startswith rest ''//''
                    then takeWhile (\<lambda>ch. ch \<notin> set ''/?#'') (drop 2 rest) else [])\<rparr>)"

definition example_urljoin :: "string \<Rightarrow> string \<Rightarrow> string" where
  "example_urljoin base u =
     (if startswith u ''/''
      then scheme (example_urlparse base) @ ''://'' @ netloc (example_urlparse base) @ u
      else u)"

definition example_urldefrag :: "string \<Rightarrow> string \<times> string" where
  "example_urldefrag u =
     (let d = takeWhile (\<lambda>ch. ch \<noteq> CHR ''#'') u in (d, drop (length d + 1) u))"

fun example_hrefs :: "string \<Rightarrow> string list" where
  "example_hrefs [] = []"
| "example_hrefs (ch # cs) =
     (if startswith (ch # cs) ''<a href=''
      then takeWhile (\<lambda>x. x \<noteq> CHR ''>'') (drop 8 (ch # cs)) # example_hrefs cs
      else example_hrefs cs)"

definition example_env :: env where
  "example_env =
     \<lparr>urlparse = example_urlparse,
      splitport = (\<lambda>h. (h, None)),
      urljoin = example_urljoin,
      urldefrag = example_urldefrag,
      parse_header = (\<lambda>v. (v, Map.empty)),
      soup = (\<lambda>st txt. if st = Anchor then example_hrefs txt else []),
      set_iter = sorted_list_of_set,
      lower = ascii_lower,
      digits_dots = list_all digit_or_dot\<rparr>"

text \<open>
  The same environment with one host that is not ASCII: \<^verbatim>\<open>str.lower()\<close> maps the
  host written with U+00C9, a capital E with acute (in UTF-8 the bytes C3 89), followed
  by \<^verbatim>\<open>.com\<close> to the host written with U+00E9, the small letter (the bytes C3 A9).
\<close>

definition accent_env :: env where
  "accent_env =
     example_env\<lparr>lower := (\<lambda>s. if s = [CHR 0xC3, CHR 0x89] @ ''.com''
                                then [CHR 0xC3, CHR 0xA9] @ ''.com'' else ascii_lower s)\<rparr>"

definition page :: "string \<Rightarrow> int \<Rightarrow> string \<Rightarrow> string \<Rightarrow> response" where
  "page u st ctype txt =
     \<lparr>resp_url = u, resp_status = st, resp_headers = [''content-type'' \<mapsto> ctype],
      resp_body = txt, resp_text = txt\<rparr>"

definition redirect :: "string \<Rightarrow> int \<Rightarrow> string \<Rightarrow> response" where
  "redirect u st loc =
     \<lparr>resp_url = u, resp_status = st, resp_headers = [''location'' \<mapsto> loc],
      resp_body = [], resp_text = []\<rparr>"

text \<open>A root page with links to two pages without links.\<close>

definition small_site :: "string \<Rightarrow> response option" where
  "small_site u =
     (if u = ''http://example.com/''
      then Some (page u 200 ''text/html'' ''<a href=/a>A</a> <a href=/b>B</a>'')
      else if u = ''http://example.com/a'' \<or> u = ''http://example.com/b''
      then Some (page u 200 ''text/html'' ''no links'')
      else None)"

text \<open>Two redirects in a row, then a page without links.\<close>

definition hops :: "nat \<Rightarrow> string" where
  "hops k = (if k = 0 then ''http://example.com/''
             else if k = 1 then ''http://example.com/1''
             else ''http://example.com/2'')"

definition hop_site :: "string \<Rightarrow> response option" where
  "hop_site u =
     (if u = ''http://example.com/'' then Some (redirect u 301 ''/1'')
      else if u = ''http://example.com/1'' then Some (redirect u 302 ''/2'')
      else if u = ''http://example.com/2'' then Some (page u 200 ''text/html'' ''no links'')
      else None)"

subsection \<open>Quantities of a pool\<close>

text \<open>
  What the proofs about the workers count: the items a pool still has to work on, in
  the queue or taken by a task that is fetching (\<open>pending\<close>); the tasks that took an
  item and have not called \<^verbatim>\<open>task_done\<close> for it (\<open>busy\<close>); and a bound on the steps
  the items at hand still need (\<open>load\<close>: an item in the queue is taken, fetched and
  released).
\<close>

fun in_flight :: "task \<Rightarrow> (string \<times> int) multiset" where
  "in_flight (Fetching u mr) = {#(u, mr)#}"
| "in_flight _ = {#}"

fun busy :: "task \<Rightarrow> nat" where
  "busy Waiting = 0"
| "busy _ = 1"

fun weight :: "task \<Rightarrow> nat" where
  "weight (Fetching u mr) = 2"
| "weight (Releasing x) = 1"
| "weight _ = 0"

fun failing :: "task \<Rightarrow> bool" where
  "failing (Releasing (Some x)) = True"
| "failing (Failed x) = True"
| "failing _ = False"

definition pending :: "pool \<Rightarrow> (string \<times> int) multiset" where
  "pending s = mset (items (q (self s))) + sum_list (map in_flight (workers s))"

definition load :: "pool \<Rightarrow> nat" where
  "load s = 3 * length (items (q (self s))) + sum_list (map weight (workers s))"

text \<open>
  The state of a pool in which the assertion of \<^verbatim>\<open>work\<close> has not failed and cannot
  fail at the next item.
\<close>

definition asserted :: "pool \<Rightarrow> bool" where
  "asserted s \<longleftrightarrow>
     fst ` set (items (q (self s))) \<subseteq> seen_urls (self s) \<and>
     Failed AssertionError \<notin> set (workers s) \<and>
     Releasing (Some AssertionError) \<notin> set (workers s)"

subsection \<open>Sites\<close>

text \<open>
  \<open>leads_to e c net u L\<close>: the request for \<open>u\<close> is answered without a client error by a
  response that is not a redirect, in which \<^verbatim>\<open>parse_response\<close> finds the links \<open>L\<close>
  (all of them allowed, since it returns no others). The links depend on the crawler
  through its root domain only.
\<close>

definition leads_to :: "env \<Rightarrow> crawler \<Rightarrow> (string \<Rightarrow> response option) \<Rightarrow> string \<Rightarrow> string set \<Rightarrow> bool" where
  "leads_to e c net u L =
     (case net u of
        None \<Rightarrow> False
      | Some r \<Rightarrow> \<not> is_redirect r \<and> fst (snd (parse_response e c r u)) = L)"

text \<open>
  The invariant and the measure of the crawl of a root \<open>R\<close> that leads to the two leaves
  \<open>A\<close> and \<open>B\<close>: before the root is fetched it is the one pending item; afterwards the
  pending items are among the two leaves, and each of the three URLs is either pending
  or has its statistic recorded.
\<close>

definition small_inv :: "crawler \<Rightarrow> string \<Rightarrow> string \<Rightarrow> string \<Rightarrow> pool \<Rightarrow> bool" where
  "small_inv c0 R A B s \<longleftrightarrow>
     root_domain (self s) = root_domain c0 \<and>
     unfinished_tasks (q (self s)) =
       length (items (q (self s))) + sum_list (map busy (workers s)) \<and>
     list_all (\<lambda>t. \<not> failing t) (workers s) \<and>
     (seen_urls (self s) = {R} \<and> visited (self s) = [] \<and>
        image_mset fst (pending s) = {#R#} \<or>
      seen_urls (self s) = {R, A, B} \<and> image_mset fst (pending s) \<subseteq># {#A, B#} \<and>
        length (visited (self s)) + size (pending s) = 3)"

definition small_measure :: "string \<Rightarrow> pool \<Rightarrow> nat" where
  "small_measure R s = load s + (if R \<in># image_mset fst (pending s) then 6 else 0)"

text \<open>
  \<open>redirects_to e net u v\<close>: the request for \<open>u\<close> is answered by a redirect whose
  Location header, joined to \<open>u\<close>, is \<open>v\<close>. \<open>chain e c net hop L\<close>: the distinct URLs
  \<open>hop 0\<close>, ..., \<open>hop L\<close> redirect each to the next, and the last is a page without links.
\<close>

definition redirects_to :: "env \<Rightarrow> (string \<Rightarrow> response option) \<Rightarrow> string \<Rightarrow> string \<Rightarrow> bool" where
  "redirects_to e net u v =
     (case net u of
        None \<Rightarrow> False
      | Some r \<Rightarrow>
          is_redirect r \<and>
          (case resp_headers r ''location'' of None \<Rightarrow> False | Some loc \<Rightarrow> urljoin e u loc = v))"

definition chain :: "env \<Rightarrow> crawler \<Rightarrow> (string \<Rightarrow> response option) \<Rightarrow> (nat \<Rightarrow> string) \<Rightarrow> nat \<Rightarrow> bool" where
  "chain e c net hop L \<longleftrightarrow>
     inj_on hop {..L} \<and> (\<forall>k<L. redirects_to e net (hop k) (hop (Suc k))) \<and>
     leads_to e c net (hop L) {}"

text \<open>
  The invariant and the measure of the crawl of a chain with \<^verbatim>\<open>max_redirect\<close> \<open>M\<close>:
  either one item is pending, the \<open>k\<close>-th URL of the chain with budget \<open>M - k\<close>, and
  nothing is recorded; or nothing is pending and the chain was followed to its end or
  dropped at the \<open>M\<close>-th URL.
\<close>

definition chain_inv ::
  "(string \<Rightarrow> response option) \<Rightarrow> crawler \<Rightarrow> (nat \<Rightarrow> string) \<Rightarrow> nat \<Rightarrow> nat \<Rightarrow> pool \<Rightarrow> bool" where
  "chain_inv net c0 hop L M s \<longleftrightarrow>
     root_domain (self s) = root_domain c0 \<and>
     unfinished_tasks (q (self s)) =
       length (items (q (self s))) + sum_list (map busy (workers s)) \<and>
     list_all (\<lambda>t. \<not> failing t) (workers s) \<and>
     ((\<exists>k \<le> min L M. pending s = {#(hop k, int M - int k)#} \<and>
          seen_urls (self s) = hop ` {..k} \<and> visited (self s) = []) \<or>
      pending s = {#} \<and> seen_urls (self s) = hop ` {..min L M} \<and>
        (if L \<le> M
         then \<exists>st. visited (self s) = [st] \<and>
                (\<forall>r. net (hop L) = Some r \<longrightarrow>
                   fs_url st = resp_url r \<and> fs_status st = resp_status r)
         else visited (self s) = []))"

definition chain_measure :: "pool \<Rightarrow> nat" where
  "chain_measure s = load s + 3 * sum_mset (image_mset (\<lambda>item. nat (snd item)) (pending s))"

section \<open>Properties\<close>

subsection \<open>What one call of \<^verbatim>\<open>fetch\<close> does\<close>

lemma fold_put:
  "fold (\<lambda>link s. s\<lparr>q := put_nowait (q s) (link, max_redirect s)\<rparr>) xs c =
     c\<lparr>q := (q c)\<lparr>items := items (q c) @ map (\<lambda>l. (l, max_redirect c)) xs,
                     unfinished_tasks := unfinished_tasks (q c) + length xs\<rparr>\<rparr>"
  by (induction xs arbitrary: c) (simp_all add: put_nowait_def)

lemma parse_response_frame:
  "parse_response e c resp u = (st, links, c1) \<Longrightarrow> c1 = c\<lparr>sitemap := sitemap c1\<rparr> \<and> finite links"
  by (auto simp: parse_response_def Let_def update_sitemap_def split: if_splits prod.splits option.splits)

lemma fetch_page:
  assumes "\<not> is_redirect resp" and "parse_response e c resp u = (st, links, c1)"
  shows "fetch e c u mr (Some resp) =
           Inr (c\<lparr>sitemap := sitemap c1, visited := visited c @ [st],
                  q := (q c)\<lparr>items := items (q c) @
                                  map (\<lambda>l. (l, max_redirect c)) (set_iter e (links - seen_urls c)),
                               unfinished_tasks := unfinished_tasks (q c) +
                                  length (set_iter e (links - seen_urls c))\<rparr>,
                  seen_urls := seen_urls c \<union> links\<rparr>)"
proof -
  from assms(2) have "c1 = c\<lparr>sitemap := sitemap c1\<rparr>"
    using parse_response_frame by blast
  then obtain sm where c1: "c1 = c\<lparr>sitemap := sm\<rparr>" ..
  show ?thesis
    using assms by (simp add: fetch_def Let_def c1 fold_put record_statistic_def)
qed


subsection \<open>The example environment\<close>

lemma example_env_sel:
  "urlparse example_env = example_urlparse"
  "splitport example_env = (\<lambda>h. (h, None))"
  "urljoin example_env = example_urljoin"
  "urldefrag example_env = example_urldefrag"
  "parse_header example_env = (\<lambda>v. (v, Map.empty))"
  "soup example_env = (\<lambda>st txt. if st = Anchor then example_hrefs txt else [])"
  "set_iter example_env = sorted_list_of_set"
  "lower example_env = ascii_lower"
  "digits_dots example_env = list_all digit_or_dot"
  by (simp_all add: example_env_def)

lemmas example_defs =
  example_env_sel example_urlparse_def example_urljoin_def example_urldefrag_def
  startswith_def ascii_lower_def ascii_lower_char_def digit_or_dot_def

lemma example_init:
  "init example_env ''http://example.com/'' mr mt =
     \<lparr>root = ''http://example.com/'', max_redirect = mr, max_tasks = mt,
      q = \<lparr>items = [(''http://example.com/'', mr)], unfinished_tasks = 1\<rparr>,
      seen_urls = {''http://example.com/''}, visited = [],
      root_domain = ''example.com'', sitemap = Map.empty\<rparr>"
  by (simp add: init_def add_url_def extract_domain_def put_nowait_def Queue_def example_defs)

subsection \<open>Admission\<close>

text \<open>
  C1. The claim is that admitting a URL a second time is a no-op, whatever the two
  budgets. \<^verbatim>\<open>add_url\<close> has no test of \<^verbatim>\<open>seen_urls\<close>, against its own docstring
  (``Add a URL to the queue if not seen before''): after two calls for the same URL the
  queue holds the URL twice and counts two more unfinished tasks, for every crawler,
  URL and pair of budgets.
\<close>

theorem add_url_not_idempotent:
  "items (q (add_url (add_url c u b1) u b2)) =
     items (q c) @ [(u, case b1 of None \<Rightarrow> max_redirect c | Some m \<Rightarrow> m),
                    (u, case b2 of None \<Rightarrow> max_redirect c | Some m \<Rightarrow> m)] \<and>
   unfinished_tasks (q (add_url (add_url c u b1) u b2)) = unfinished_tasks (q c) + 2 \<and>
   seen_urls (add_url (add_url c u b1) u b2) = insert u (seen_urls c)"
  by (simp add: add_url_def put_nowait_def Let_def split: option.splits)

subsection \<open>The scope of a host\<close>

lemma startswith_www:
  "startswith h ''www.'' \<longleftrightarrow> (\<exists>rest. h = ''www.'' @ rest)"
proof
  assume "startswith h ''www.''"
  then have t: "take 4 h = ''www.''" by (simp add: startswith_def numeral_eq_Suc)
  have "h = take 4 h @ drop 4 h" by simp
  with t have "h = ''www.'' @ drop 4 h" by simp
  then show "\<exists>rest. h = ''www.'' @ rest" ..
next
  assume "\<exists>rest. h = ''www.'' @ rest"
  then show "startswith h ''www.''" by (auto simp: startswith_def)
qed

lemma host_okay_in_scope: "host_okay e c host = in_scope e (root_domain c) host"
proof (cases "startswith (lower e host) ''www.''")
  case True
  then obtain rest where r: "lower e host = ''www.'' @ rest"
    unfolding startswith_www by blast
  with True show ?thesis
    unfolding host_okay_def in_scope_def Let_def
    by (simp add: startswith_def)
next
  case False
  then have "(case lower e host of
          CHR ''w'' # CHR ''w'' # CHR ''w'' # CHR ''.'' # rest \<Rightarrow> rest = root_domain c
        | _ \<Rightarrow> CHR ''w'' # CHR ''w'' # CHR ''w'' # CHR ''.'' # lower e host = root_domain c)
     = (''www.'' @ lower e host = root_domain c)"
    unfolding startswith_www
    by (auto split: list.splits char.splits bool.splits)
  with False show ?thesis
    unfolding host_okay_def in_scope_def Let_def
    by auto
qed

lemma ascii_stringsD:
  assumes "ascii_strings e" and "is_ascii s"
  shows "lower e s = ascii_lower s" and "digits_dots e s = list_all digit_or_dot s"
  using assms by (simp_all add: ascii_strings_def)

lemma ascii_strings_example: "ascii_strings example_env"
  by (simp add: ascii_strings_def example_env_sel)

text \<open>
  C4. \<^verbatim>\<open>host_okay\<close> decides, for every host string and every root domain, what the
  algorithm of the specification decides, whatever \<^verbatim>\<open>str.lower()\<close> and \<^verbatim>\<open>\d\<close> do
  on the characters of the host. With the root domain \<^verbatim>\<open>example.com\<close>, and
  \<^verbatim>\<open>str.lower()\<close> and \<^verbatim>\<open>\d\<close> being on ASCII strings what they are in Python, the hosts
  \<^verbatim>\<open>example.com\<close> and \<^verbatim>\<open>www.example.com\<close> are in scope, \<^verbatim>\<open>sub.example.com\<close> and
  \<^verbatim>\<open>192.168.0.1\<close> are not.
\<close>

theorem host_okay_scope:
  "host_okay e c host = in_scope e (root_domain c) host \<and>
   (ascii_strings e \<and> root_domain c = ''example.com'' \<longrightarrow>
      host_okay e c ''example.com'' \<and> host_okay e c ''www.example.com'' \<and>
      \<not> host_okay e c ''sub.example.com'' \<and> \<not> host_okay e c ''192.168.0.1'')"
proof (intro conjI impI)
  show "host_okay e c host = in_scope e (root_domain c) host"
    by (rule host_okay_in_scope)
next
  assume a: "ascii_strings e \<and> root_domain c = ''example.com''"
  then have e: "ascii_strings e" and rd: "root_domain c = ''example.com''" by simp_all
  have asc: "is_ascii ''example.com''" "is_ascii ''www.example.com''"
    "is_ascii ''sub.example.com''" "is_ascii ''192.168.0.1''"
    by (simp_all add: is_ascii_def)
  have low: "lower e ''example.com'' = ''example.com''"
    "lower e ''www.example.com'' = ''www.example.com''"
    "lower e ''sub.example.com'' = ''sub.example.com''"
    "lower e ''192.168.0.1'' = ''192.168.0.1''"
    by (simp_all add: ascii_stringsD(1) [OF e asc(1)] ascii_stringsD(1) [OF e asc(2)]
          ascii_stringsD(1) [OF e asc(3)] ascii_stringsD(1) [OF e asc(4)]
          ascii_lower_def ascii_lower_char_def)
  have dig: "\<not> digits_dots e ''www.example.com''" "\<not> digits_dots e ''sub.example.com''"
    "digits_dots e ''192.168.0.1''"
    by (simp_all add: ascii_stringsD(2) [OF e asc(2)] ascii_stringsD(2) [OF e asc(3)]
          ascii_stringsD(2) [OF e asc(4)] digit_or_dot_def)
  show "host_okay e c ''example.com''"
    by (simp add: host_okay_def low rd)
  show "host_okay e c ''www.example.com''"
    by (simp add: host_okay_def low rd dig startswith_def)
  show "\<not> host_okay e c ''sub.example.com''"
    by (simp add: host_okay_def low rd dig startswith_def)
  show "\<not> host_okay e c ''192.168.0.1''"
    by (simp add: host_okay_def low rd dig)
qed

theorem host_okay_scope_witness:
  "ascii_strings example_env \<and>
   root_domain (init example_env ''http://example.com/'' 10 10) = ''example.com'' \<and>
   host_okay example_env (init example_env ''http://example.com/'' 10 10) ''example.com'' \<and>
   host_okay example_env (init example_env ''http://example.com/'' 10 10) ''www.example.com'' \<and>
   \<not> host_okay example_env (init example_env ''http://example.com/'' 10 10) ''sub.example.com'' \<and>
   \<not> host_okay example_env (init example_env ''http://example.com/'' 10 10) ''192.168.0.1'' \<and>
   in_scope example_env ''example.com'' ''WWW.Example.COM'' \<and>
   host_okay accent_env
     ((init example_env ''http://example.com/'' 10 10)\<lparr>root_domain := [CHR 0xC3, CHR 0xA9] @ ''.com''\<rparr>)
     ([CHR 0xC3, CHR 0x89] @ ''.com'') \<and>
   in_scope accent_env ([CHR 0xC3, CHR 0xA9] @ ''.com'') ([CHR 0xC3, CHR 0x89] @ ''.com'')"
proof -
  let ?c = "init example_env ''http://example.com/'' 10 10"
  have rd: "root_domain ?c = ''example.com''"
    by (simp add: example_init)
  have "host_okay example_env ?c ''WWW.Example.COM''"
    by (simp add: example_init host_okay_def example_defs)
  with rd ascii_strings_example have a: "ascii_strings example_env \<and>
   root_domain ?c = ''example.com'' \<and>
   host_okay example_env ?c ''example.com'' \<and> host_okay example_env ?c ''www.example.com'' \<and>
   \<not> host_okay example_env ?c ''sub.example.com'' \<and> \<not> host_okay example_env ?c ''192.168.0.1'' \<and>
   in_scope example_env ''example.com'' ''WWW.Example.COM''"
    using host_okay_scope [of example_env ?c "''WWW.Example.COM''"]
    by simp
  have "host_okay accent_env (?c\<lparr>root_domain := [CHR 0xC3, CHR 0xA9] @ ''.com''\<rparr>)
     ([CHR 0xC3, CHR 0x89] @ ''.com'')"
    by (simp add: host_okay_def accent_env_def)
  then have b: "host_okay accent_env (?c\<lparr>root_domain := [CHR 0xC3, CHR 0xA9] @ ''.com''\<rparr>)
     ([CHR 0xC3, CHR 0x89] @ ''.com'') \<and>
   in_scope accent_env ([CHR 0xC3, CHR 0xA9] @ ''.com'') ([CHR 0xC3, CHR 0x89] @ ''.com'')"
    using host_okay_scope [of accent_env "?c\<lparr>root_domain := [CHR 0xC3, CHR 0xA9] @ ''.com''\<rparr>"
        "[CHR 0xC3, CHR 0x89] @ ''.com''"]
    by simp
  from a b show ?thesis by blast
qed

subsection \<open>Redirects\<close>

text \<open>
  C5. The claim is that the target of a redirect is admitted without its fragment.
  \<^verbatim>\<open>process_redirect\<close> joins the Location header to the URL with \<^verbatim>\<open>urljoin\<close> and
  admits the result as it is; it does not call \<^verbatim>\<open>normalize_url\<close>, which the links of
  a page go through. For a redirect from \<^verbatim>\<open>http://example.com/\<close> to \<^verbatim>\<open>/b#frag\<close>
  the URL admitted is \<^verbatim>\<open>http://example.com/b#frag\<close>, where \<^verbatim>\<open>normalize_url\<close> gives
  \<^verbatim>\<open>http://example.com/b\<close> for the same link.
\<close>

theorem redirect_keeps_fragment:
  "fetch example_env (init example_env ''http://example.com/'' 10 10) ''http://example.com/'' 10
     (Some (redirect ''http://example.com/'' 301 ''/b#frag'')) =
   Inr (add_url (init example_env ''http://example.com/'' 10 10) ''http://example.com/b#frag'' (Some 9)) \<and>
   normalize_url example_env ''/b#frag'' (redirect ''http://example.com/'' 301 ''/b#frag'') =
     ''http://example.com/b''"
  by (simp add: fetch_def is_redirect_def process_redirect_def redirect_def example_init
        normalize_url_def example_defs)

text \<open>
  C6. A redirect whose target is already in \<^verbatim>\<open>seen_urls\<close> changes nothing, whatever
  budget remains: the queue, the seen set and everything else of the crawler are as
  before, since the test of \<^verbatim>\<open>seen_urls\<close> comes before the test of the budget.
\<close>

theorem seen_target_dropped:
  assumes "is_redirect resp" and "resp_headers resp ''location'' = Some loc"
    and "urljoin e u loc \<in> seen_urls c"
  shows "process_redirect e c resp u mr = Inr c \<and> fetch e c u mr (Some resp) = Inr c"
  using assms by (simp add: fetch_def process_redirect_def)

theorem seen_target_dropped_witness:
  "(0::int) < 10 \<and>
   urljoin example_env ''http://example.com/old'' ''/'' \<in>
     seen_urls (init example_env ''http://example.com/'' 10 10) \<and>
   fetch example_env (init example_env ''http://example.com/'' 10 10) ''http://example.com/old'' 10
     (Some (redirect ''http://example.com/old'' 301 ''/'')) =
   Inr (init example_env ''http://example.com/'' 10 10)"
proof -
  have 1: "is_redirect (redirect ''http://example.com/old'' 301 ''/'')"
    by (simp add: is_redirect_def redirect_def)
  have 2: "resp_headers (redirect ''http://example.com/old'' 301 ''/'') ''location'' = Some ''/''"
    by (simp add: redirect_def)
  have 3: "urljoin example_env ''http://example.com/old'' ''/'' \<in>
     seen_urls (init example_env ''http://example.com/'' 10 10)"
    by (simp add: example_init example_defs)
  from seen_target_dropped [OF 1 2 3, of 10] 3 show ?thesis by simp
qed

text \<open>
  C9. \<^verbatim>\<open>process_redirect\<close> reads the Location header first and without a default.
  For a redirect response without the header the lookup raises \<^verbatim>\<open>KeyError\<close>, which
  leaves \<^verbatim>\<open>fetch\<close> with nothing of the crawler changed (no URL admitted, no statistic
  recorded); the task that was fetching is left with the exception pending. With the
  header present \<^verbatim>\<open>process_redirect\<close> and \<^verbatim>\<open>fetch\<close> return normally.
\<close>

theorem missing_location:
  assumes "is_redirect resp"
  shows "(resp_headers resp ''location'' = None \<longrightarrow>
            process_redirect e c resp u mr = Inl (KeyError ''location'') \<and>
            fetch e c u mr (Some resp) = Inl (KeyError ''location'') \<and>
            (i < length (workers s) \<and> workers s ! i = Fetching u mr \<and> net u = Some resp \<longrightarrow>
               work_step e net s i =
                 Some (s\<lparr>workers := (workers s)[i := Releasing (Some (KeyError ''location''))]\<rparr>))) \<and>
         (resp_headers resp ''location'' \<noteq> None \<longrightarrow>
            (\<exists>c'. process_redirect e c resp u mr = Inr c' \<and> fetch e c u mr (Some resp) = Inr c'))"
  using assms
  by (auto simp: fetch_def process_redirect_def work_step_def Let_def)

theorem missing_location_witness:
  "is_redirect \<lparr>resp_url = ''http://example.com/'', resp_status = 302, resp_headers = Map.empty,
                 resp_body = [], resp_text = []\<rparr> \<and>
   fetch example_env (init example_env ''http://example.com/'' 10 10) ''http://example.com/'' 10
     (Some \<lparr>resp_url = ''http://example.com/'', resp_status = 302, resp_headers = Map.empty,
            resp_body = [], resp_text = []\<rparr>) = Inl (KeyError ''location'') \<and>
   (\<exists>c'. fetch example_env (init example_env ''http://example.com/'' 10 10) ''http://example.com/'' 10
     (Some (redirect ''http://example.com/'' 302 ''/1'')) = Inr c')"
proof -
  have 1: "is_redirect \<lparr>resp_url = ''http://example.com/'', resp_status = 302,
             resp_headers = Map.empty, resp_body = [], resp_text = []\<rparr>"
    by (simp add: is_redirect_def)
  have 2: "is_redirect (redirect ''http://example.com/'' 302 ''/1'')"
    by (simp add: is_redirect_def redirect_def)
  have 3: "resp_headers (redirect ''http://example.com/'' 302 ''/1'') ''location'' \<noteq> None"
    by (simp add: redirect_def)
  have 0: "resp_headers \<lparr>resp_url = ''http://example.com/'', resp_status = 302,
             resp_headers = Map.empty, resp_body = [], resp_text = []\<rparr> ''location'' = None"
    by simp
  from 0 missing_location [OF 1, of example_env "init example_env ''http://example.com/'' 10 10"
        "''http://example.com/''" 10]
  have a: "fetch example_env (init example_env ''http://example.com/'' 10 10) ''http://example.com/'' 10
     (Some \<lparr>resp_url = ''http://example.com/'', resp_status = 302, resp_headers = Map.empty,
            resp_body = [], resp_text = []\<rparr>) = Inl (KeyError ''location'')"
    by blast
  from 3 missing_location [OF 2, of example_env "init example_env ''http://example.com/'' 10 10"
        "''http://example.com/''" 10]
  have b: "\<exists>c'. fetch example_env (init example_env ''http://example.com/'' 10 10) ''http://example.com/'' 10
     (Some (redirect ''http://example.com/'' 302 ''/1'')) = Inr c'"
    by blast
  from 1 a b show ?thesis by blast
qed


subsection \<open>Responses that are not parsed\<close>

lemma parse_response_other:
  assumes "parse_response e c resp u = (st, links, c1)"
    and "resp_status resp \<noteq> 200 \<or>
         fs_content_type st \<notin> {Some ''text/html'', Some ''application/xml''}"
  shows "links = {} \<and> c1 = c \<and> fs_num_urls st = 0 \<and> fs_num_new_urls st = 0"
  using assms
  by (auto simp: parse_response_def Let_def split: if_splits prod.splits option.splits)

text \<open>
  C7. For a response that is not a redirect and whose status is not 200 or whose
  content type, as \<^verbatim>\<open>parse_response\<close> reads it, is neither \<^verbatim>\<open>text/html\<close> nor
  \<^verbatim>\<open>application/xml\<close>, \<^verbatim>\<open>fetch\<close> records exactly one statistic, with no links
  counted, and leaves the sitemap and the seen set as they were.
\<close>

theorem other_response_outcome:
  assumes "\<not> is_redirect resp"
    and "parse_response e c resp u = (st, links, c1)"
    and "resp_status resp \<noteq> 200 \<or>
         fs_content_type st \<notin> {Some ''text/html'', Some ''application/xml''}"
  shows "\<exists>c'. fetch e c u mr (Some resp) = Inr c' \<and> visited c' = visited c @ [st] \<and>
              fs_num_urls st = 0 \<and> links = {} \<and> sitemap c' = sitemap c \<and>
              seen_urls c' = seen_urls c"
proof -
  from assms(2,3) have o: "links = {}" "c1 = c" "fs_num_urls st = 0"
    using parse_response_other by blast+
  show ?thesis
    unfolding fetch_page [OF assms(1,2)] by (simp add: o)
qed

theorem other_response_outcome_witness:
  "\<not> is_redirect (page ''http://example.com/'' 200 ''text/plain'' ''<a href=/a>A</a>'') \<and>
   fs_content_type (fst (parse_response example_env (init example_env ''http://example.com/'' 10 10)
      (page ''http://example.com/'' 200 ''text/plain'' ''<a href=/a>A</a>'') ''http://example.com/''))
     = Some ''text/plain'' \<and>
   (\<exists>c'. fetch example_env (init example_env ''http://example.com/'' 10 10) ''http://example.com/'' 10
           (Some (page ''http://example.com/'' 200 ''text/plain'' ''<a href=/a>A</a>'')) = Inr c' \<and>
         length (visited c') = 1 \<and> fs_num_urls (hd (visited c')) = 0 \<and>
         sitemap c' ''http://example.com/'' = None)"
proof -
  let ?c = "init example_env ''http://example.com/'' 10 10"
  let ?r = "page ''http://example.com/'' 200 ''text/plain'' ''<a href=/a>A</a>''"
  obtain st links c1 where p: "parse_response example_env ?c ?r ''http://example.com/'' = (st, links, c1)"
    by (metis prod_cases3)
  have 1: "\<not> is_redirect ?r" by (simp add: is_redirect_def page_def)
  have ct: "fs_content_type (fst (parse_response example_env ?c ?r ''http://example.com/'')) = Some ''text/plain''"
    by (simp add: parse_response_def page_def example_env_sel)
  with p have 3: "resp_status ?r \<noteq> 200 \<or>
         fs_content_type st \<notin> {Some ''text/html'', Some ''application/xml''}" by simp
  have v: "visited ?c = []" "sitemap ?c = Map.empty" by (simp_all add: example_init)
  from other_response_outcome [OF 1 p 3, of 10] v 1 ct show ?thesis
    by auto
qed

subsection \<open>The scheme of a link\<close>

lemma parse_response_links:
  "parse_response e c resp v = (st, links, c1) \<Longrightarrow> x \<in> links \<Longrightarrow> url_allowed e c x"
  by (auto simp: parse_response_def Let_def split: if_splits prod.splits option.splits)

lemma set_iteration_set: "set_iteration e \<Longrightarrow> finite S \<Longrightarrow> set (set_iter e S) = S"
  by (simp add: set_iteration_def)

lemma set_iteration_distinct: "set_iteration e \<Longrightarrow> finite S \<Longrightarrow> distinct (set_iter e S)"
  by (simp add: set_iteration_def)

lemma set_iteration_example: "set_iteration example_env"
  by (simp add: set_iteration_def example_env_sel)

text \<open>
  C10. A URL whose scheme is neither \<^verbatim>\<open>http\<close> nor \<^verbatim>\<open>https\<close> is not allowed,
  whatever its host; it is not among the links \<^verbatim>\<open>parse_response\<close> returns, and a
  fetch of a page does not put it into the queue.
\<close>

theorem scheme_gate:
  assumes "scheme (urlparse e u) \<notin> {''http'', ''https''}"
  shows "\<not> url_allowed e c u \<and> u \<notin> fst (snd (parse_response e c resp v)) \<and>
         (set_iteration e \<and> \<not> is_redirect resp \<and> u \<notin> fst ` set (items (q c)) \<longrightarrow>
            (\<exists>c'. fetch e c v mr (Some resp) = Inr c' \<and> u \<notin> fst ` set (items (q c'))))"
proof -
  have a: "\<not> url_allowed e c u"
    using assms by (simp add: url_allowed_def Let_def)
  obtain st links c1 where p: "parse_response e c resp v = (st, links, c1)"
    by (metis prod_cases3)
  from a p have b: "u \<notin> links"
    using parse_response_links by blast
  have "\<exists>c'. fetch e c v mr (Some resp) = Inr c' \<and> u \<notin> fst ` set (items (q c'))"
    if "set_iteration e" "\<not> is_redirect resp" "u \<notin> fst ` set (items (q c))"
  proof -
    have "finite (links - seen_urls c)"
      using p parse_response_frame by blast
    then have "set (set_iter e (links - seen_urls c)) = links - seen_urls c"
      using that(1) by (rule set_iteration_set [rotated])
    with b that(3) show ?thesis
      unfolding fetch_page [OF that(2) p] by (auto simp: image_Un image_image)
  qed
  with a b p show ?thesis by simp
qed

theorem scheme_gate_witness:
  "scheme (urlparse example_env ''ftp://example.com/f'') = ''ftp'' \<and>
   host_okay example_env (init example_env ''http://example.com/'' 10 10)
     (fst (splitport example_env (netloc (urlparse example_env ''ftp://example.com/f'')))) \<and>
   \<not> url_allowed example_env (init example_env ''http://example.com/'' 10 10) ''ftp://example.com/f'' \<and>
   (\<exists>c'. fetch example_env (init example_env ''http://example.com/'' 10 10) ''http://example.com/'' 10
           (Some (page ''http://example.com/'' 200 ''text/html'' ''<a href=ftp://example.com/f>F</a>''))
         = Inr c' \<and> ''ftp://example.com/f'' \<notin> fst ` set (items (q c')))"
proof -
  let ?c = "init example_env ''http://example.com/'' 10 10"
  let ?r = "page ''http://example.com/'' 200 ''text/html'' ''<a href=ftp://example.com/f>F</a>''"
  have s: "scheme (urlparse example_env ''ftp://example.com/f'') = ''ftp''"
    by (simp add: example_defs)
  then have 1: "scheme (urlparse example_env ''ftp://example.com/f'') \<notin> {''http'', ''https''}"
    by simp
  have h: "host_okay example_env ?c (fst (splitport example_env (netloc (urlparse example_env ''ftp://example.com/f''))))"
    by (simp add: example_init host_okay_def example_defs)
  have 2: "\<not> is_redirect ?r" by (simp add: is_redirect_def page_def)
  have 3: "''ftp://example.com/f'' \<notin> fst ` set (items (q ?c))" by (simp add: example_init)
  from scheme_gate [OF 1, of ?c ?r "''http://example.com/''" 10] set_iteration_example 2 3 s h
  show ?thesis by blast
qed

subsection \<open>Steps of the workers\<close>

lemma sum_list_update_nat:
  fixes f :: "'a \<Rightarrow> nat"
  shows "i < length ws \<Longrightarrow> sum_list (map f (ws[i := t])) + f (ws ! i) = sum_list (map f ws) + f t"
  by (induction ws arbitrary: i) (auto simp: nth_Cons' split: nat.splits)

lemma sum_list_update_mset:
  fixes f :: "'a \<Rightarrow> 'b multiset"
  shows "i < length ws \<Longrightarrow> sum_list (map f (ws[i := t])) + f (ws ! i) = sum_list (map f ws) + f t"
  by (induction ws arbitrary: i) (auto simp: nth_Cons' split: nat.splits)

lemma work_stepE:
  assumes "work_step e net s i = Some s'"
  obtains
    (take) u mr rest where "i < length (workers s)" "workers s ! i = Waiting"
      "items (q (self s)) = (u, mr) # rest"
      "s' = \<lparr>self = (self s)\<lparr>q := (q (self s))\<lparr>items := rest\<rparr>\<rparr>,
             workers = (workers s)[i := if u \<in> seen_urls (self s) then Fetching u mr
                                        else Failed AssertionError]\<rparr>"
  | (raised) u mr x where "i < length (workers s)" "workers s ! i = Fetching u mr"
      "fetch e (self s) u mr (net u) = Inl x"
      "s' = s\<lparr>workers := (workers s)[i := Releasing (Some x)]\<rparr>"
  | (client_error) u mr where "i < length (workers s)" "workers s ! i = Fetching u mr"
      "net u = None"
      "s' = \<lparr>self = (self s)\<lparr>q := task_done (q (self s))\<rparr>, workers = (workers s)[i := Waiting]\<rparr>"
  | (fetched) u mr r c where "i < length (workers s)" "workers s ! i = Fetching u mr"
      "net u = Some r" "fetch e (self s) u mr (Some r) = Inr c"
      "s' = \<lparr>self = c, workers = (workers s)[i := Releasing None]\<rparr>"
  | (released) "i < length (workers s)" "workers s ! i = Releasing None"
      "s' = \<lparr>self = (self s)\<lparr>q := task_done (q (self s))\<rparr>, workers = (workers s)[i := Waiting]\<rparr>"
  | (failed) x where "i < length (workers s)" "workers s ! i = Releasing (Some x)"
      "s' = s\<lparr>workers := (workers s)[i := Failed x]\<rparr>"
proof -
  from assms have i: "i < length (workers s)"
    by (simp add: work_step_def split: if_splits)
  show thesis
  proof (cases "workers s ! i")
    case Waiting
    with assms i show ?thesis
      by (auto simp: work_step_def split: list.splits intro: take)
  next
    case (Fetching u mr)
    show ?thesis
    proof (cases "fetch e (self s) u mr (net u)")
      case (Inl x)
      with assms i Fetching show ?thesis
        by (auto simp: work_step_def intro: raised)
    next
      case (Inr c)
      show ?thesis
      proof (cases "net u")
        case None
        with Inr have "c = self s" by (simp add: fetch_def)
        with assms i Fetching Inr None show ?thesis
          by (auto simp: work_step_def intro: client_error)
      next
        case (Some r)
        with assms i Fetching Inr show ?thesis
          by (auto simp: work_step_def intro: fetched)
      qed
    qed
  next
    case (Releasing x)
    with assms i show ?thesis
      by (cases x) (auto simp: work_step_def intro: released failed)
  next
    case (Failed x)
    with assms i show ?thesis
      by (simp add: work_step_def)
  qed
qed


subsection \<open>The queue after a fetch\<close>

lemma process_redirect_cases:
  assumes "process_redirect e c resp u mr = Inr c'"
  obtains (dropped) "c' = c"
  | (admitted) loc where "resp_headers resp ''location'' = Some loc"
      "urljoin e u loc \<notin> seen_urls c" "0 < mr"
      "c' = c\<lparr>seen_urls := insert (urljoin e u loc) (seen_urls c),
                q := (q c)\<lparr>items := items (q c) @ [(urljoin e u loc, mr - 1)],
                             unfinished_tasks := unfinished_tasks (q c) + 1\<rparr>\<rparr>"
  using assms
  by (auto simp: process_redirect_def add_url_def put_nowait_def Let_def
           split: option.splits if_splits)

lemma fetch_queue:
  assumes "fetch e c u mr got = Inr c'"
  shows "\<exists>new. items (q c') = items (q c) @ new \<and>
               unfinished_tasks (q c') = unfinished_tasks (q c) + length new \<and>
               seen_urls c \<subseteq> seen_urls c' \<and> root_domain c' = root_domain c \<and>
               max_redirect c' = max_redirect c \<and>
               (set_iteration e \<longrightarrow> fst ` set new \<subseteq> seen_urls c')"
proof (cases got)
  case None
  with assms show ?thesis by (simp add: fetch_def)
next
  case (Some resp)
  show ?thesis
  proof (cases "is_redirect resp")
    case True
    with assms Some have "process_redirect e c resp u mr = Inr c'"
      by (simp add: fetch_def)
    then show ?thesis
      by (cases rule: process_redirect_cases) auto
  next
    case False
    obtain st links c1 where p: "parse_response e c resp u = (st, links, c1)"
      by (metis prod_cases3)
    have fin: "finite (links - seen_urls c)"
      using p parse_response_frame by blast
    from assms Some have c': "c' = c\<lparr>sitemap := sitemap c1, visited := visited c @ [st],
                  q := (q c)\<lparr>items := items (q c) @
                                  map (\<lambda>l. (l, max_redirect c)) (set_iter e (links - seen_urls c)),
                               unfinished_tasks := unfinished_tasks (q c) +
                                  length (set_iter e (links - seen_urls c))\<rparr>,
                  seen_urls := seen_urls c \<union> links\<rparr>"
      using fetch_page [OF False p] by simp
    have "fst ` set (map (\<lambda>l. (l, max_redirect c)) (set_iter e (links - seen_urls c)))
            \<subseteq> seen_urls c'" if "set_iteration e"
      using set_iteration_set [OF that fin] by (auto simp: c')
    then show ?thesis
      by (intro exI [of _ "map (\<lambda>l. (l, max_redirect c)) (set_iter e (links - seen_urls c))"])
         (simp add: c')
  qed
qed


subsection \<open>The frontier and the seen set\<close>

lemma fetch_raises:
  "fetch e c u mr got = Inl x \<Longrightarrow> x = KeyError ''location''"
  by (auto simp: fetch_def process_redirect_def Let_def split: option.splits if_splits prod.splits)

lemma in_updateD: "x \<in> set (ws[i := t]) \<Longrightarrow> x = t \<or> x \<in> set ws"
  using set_update_subset_insert [of ws i t] by auto

lemma step_seen_mono:
  assumes "work_step e net s i = Some s'"
  shows "seen_urls (self s) \<subseteq> seen_urls (self s')"
  using assms
proof (cases rule: work_stepE)
  case (fetched u mr r c)
  with fetch_queue [OF fetched(4)] show ?thesis by auto
qed (simp_all add: task_done_def)

lemma asserted_step:
  assumes "set_iteration e" and "asserted s" and "work_step e net s i = Some s'"
  shows "asserted s'"
  using assms(3)
proof (cases rule: work_stepE)
  case (take u mr rest)
  with assms(2) show ?thesis
    by (auto simp: asserted_def dest!: in_updateD)
next
  case (raised u mr x)
  with fetch_raises [OF raised(3)] assms(2) show ?thesis
    by (auto simp: asserted_def dest!: in_updateD)
next
  case (client_error u mr)
  with assms(2) show ?thesis
    by (auto simp: asserted_def task_done_def dest!: in_updateD)
next
  case (fetched u mr r c)
  from fetch_queue [OF fetched(4)] assms(1) obtain new where
    "items (q c) = items (q (self s)) @ new" "seen_urls (self s) \<subseteq> seen_urls c"
    "fst ` set new \<subseteq> seen_urls c" by blast
  with fetched assms(2) show ?thesis
    by (auto simp: asserted_def dest!: in_updateD)
next
  case released
  with assms(2) show ?thesis
    by (auto simp: asserted_def task_done_def dest!: in_updateD)
next
  case (failed x)
  with assms(2) have "x \<noteq> AssertionError"
    by (auto simp: asserted_def dest: nth_mem)
  with failed assms(2) show ?thesis
    by (auto simp: asserted_def dest!: in_updateD)
qed

lemma asserted_reachable:
  assumes "set_iteration e" and "(step e net)\<^sup>*\<^sup>* s0 s" and "asserted s0"
  shows "asserted s"
  using assms(2,3)
proof (induction rule: rtranclp_induct)
  case base
  then show ?case .
next
  case (step y z)
  then show ?case
    using asserted_step [OF assms(1)] by (auto simp: step_def)
qed

lemma init_fields:
  "items (q (init e r mr mt)) = [(r, mr)]" "unfinished_tasks (q (init e r mr mt)) = 1"
  "seen_urls (init e r mr mt) = {r}" "visited (init e r mr mt) = []"
  "root_domain (init e r mr mt) = extract_domain e r" "max_redirect (init e r mr mt) = mr"
  "max_tasks (init e r mr mt) = mt" "sitemap (init e r mr mt) = Map.empty"
  by (simp_all add: init_def add_url_def put_nowait_def Queue_def)

lemma asserted_crawl: "asserted (crawl (init e r mr mt))"
  by (simp add: asserted_def crawl_def init_fields)

text \<open>
  C8. After \<^verbatim>\<open>__init__\<close> has admitted the root, every URL in the queue is in
  \<^verbatim>\<open>seen_urls\<close>; every call of \<^verbatim>\<open>fetch\<close> that returns (a redirect processed, a page
  parsed and its links enqueued, or a client error) keeps it so and only adds to
  \<^verbatim>\<open>seen_urls\<close>; no step of a worker removes a URL from \<^verbatim>\<open>seen_urls\<close>; and in every
  state the crawl can reach the queue is within \<^verbatim>\<open>seen_urls\<close> and no worker has
  failed, or is about to fail, with the \<^verbatim>\<open>AssertionError\<close> of \<^verbatim>\<open>work\<close>.
\<close>

theorem frontier_in_seen:
  assumes "set_iteration e"
  shows "fst ` set (items (q (init e r mr mt))) \<subseteq> seen_urls (init e r mr mt) \<and>
    (fst ` set (items (q c)) \<subseteq> seen_urls c \<and> fetch e c u b got = Inr c' \<longrightarrow>
        fst ` set (items (q c')) \<subseteq> seen_urls c' \<and> seen_urls c \<subseteq> seen_urls c') \<and>
    (step e net s s' \<longrightarrow> seen_urls (self s) \<subseteq> seen_urls (self s')) \<and>
    ((step e net)\<^sup>*\<^sup>* (crawl (init e r mr mt)) s \<longrightarrow>
        fst ` set (items (q (self s))) \<subseteq> seen_urls (self s) \<and>
        Failed AssertionError \<notin> set (workers s) \<and>
        Releasing (Some AssertionError) \<notin> set (workers s))"
proof (intro conjI impI)
  show "fst ` set (items (q (init e r mr mt))) \<subseteq> seen_urls (init e r mr mt)"
    by (simp add: init_fields)
next
  assume a: "fst ` set (items (q c)) \<subseteq> seen_urls c \<and> fetch e c u b got = Inr c'"
  then obtain new where n: "items (q c') = items (q c) @ new" "seen_urls c \<subseteq> seen_urls c'"
    "fst ` set new \<subseteq> seen_urls c'"
    using fetch_queue [of e c u b got c'] assms by blast
  with a show "fst ` set (items (q c')) \<subseteq> seen_urls c'" by auto
  from n show "seen_urls c \<subseteq> seen_urls c'" by simp
next
  assume "step e net s s'"
  then show "seen_urls (self s) \<subseteq> seen_urls (self s')"
    by (auto simp: step_def dest: step_seen_mono)
next
  assume "(step e net)\<^sup>*\<^sup>* (crawl (init e r mr mt)) s"
  then have "asserted s"
    using asserted_reachable [OF assms] asserted_crawl by blast
  then show "fst ` set (items (q (self s))) \<subseteq> seen_urls (self s)"
    "Failed AssertionError \<notin> set (workers s)"
    "Releasing (Some AssertionError) \<notin> set (workers s)"
    by (simp_all add: asserted_def)
qed


theorem frontier_in_seen_witness:
  "set_iteration example_env \<and>
   fetch example_env (init example_env ''http://example.com/'' 10 10) ''http://example.com/'' 10
     (Some (redirect ''http://example.com/'' 301 ''/1'')) =
     Inr (add_url (init example_env ''http://example.com/'' 10 10) ''http://example.com/1'' (Some 9)) \<and>
   fst ` set (items (q (add_url (init example_env ''http://example.com/'' 10 10)
      ''http://example.com/1'' (Some 9)))) \<subseteq>
     seen_urls (add_url (init example_env ''http://example.com/'' 10 10) ''http://example.com/1'' (Some 9)) \<and>
   seen_urls (init example_env ''http://example.com/'' 10 10) \<subseteq>
     seen_urls (add_url (init example_env ''http://example.com/'' 10 10) ''http://example.com/1'' (Some 9)) \<and>
   (step example_env hop_site)\<^sup>*\<^sup>* (crawl (init example_env ''http://example.com/'' 10 10))
     (crawl (init example_env ''http://example.com/'' 10 10)) \<and>
   Failed AssertionError \<notin> set (workers (crawl (init example_env ''http://example.com/'' 10 10)))"
proof -
  let ?c = "init example_env ''http://example.com/'' 10 10"
  let ?c' = "add_url ?c ''http://example.com/1'' (Some 9)"
  have f: "fetch example_env ?c ''http://example.com/'' 10
     (Some (redirect ''http://example.com/'' 301 ''/1'')) = Inr ?c'"
    by (simp add: fetch_def is_redirect_def process_redirect_def redirect_def example_init
          example_defs)
  have i: "fst ` set (items (q ?c)) \<subseteq> seen_urls ?c"
    by (simp add: init_fields)
  have r: "(step example_env hop_site)\<^sup>*\<^sup>* (crawl ?c) (crawl ?c)"
    by simp
  from frontier_in_seen [OF set_iteration_example, where r = "''http://example.com/''"
      and mr = 10 and mt = 10 and c = ?c and u = "''http://example.com/''" and b = 10
      and got = "Some (redirect ''http://example.com/'' 301 ''/1'')" and c' = ?c'
      and net = hop_site and s = "crawl ?c"] f i r set_iteration_example
  show ?thesis by blast
qed

subsection \<open>Crawling a root page with two leaves\<close>

lemma url_allowed_root_domain:
  "root_domain c = root_domain c' \<Longrightarrow> url_allowed e c = url_allowed e c'"
  by (rule ext) (simp add: url_allowed_def host_okay_def)

lemma links_root_domain:
  assumes "root_domain c = root_domain c'"
  shows "fst (snd (parse_response e c r u)) = fst (snd (parse_response e c' r u'))"
  unfolding parse_response_def url_allowed_root_domain [OF assms]
  by (simp add: Let_def split: prod.splits option.splits)

lemma leads_toD:
  assumes "leads_to e c0 net u L" and "root_domain c = root_domain c0"
  obtains r st c1 where "net u = Some r" "\<not> is_redirect r"
    "parse_response e c r u = (st, L, c1)"
proof -
  from assms(1) obtain r where r: "net u = Some r" "\<not> is_redirect r"
    "fst (snd (parse_response e c0 r u)) = L"
    by (auto simp: leads_to_def split: option.splits)
  from r(3) links_root_domain [OF assms(2), of e r u u]
  have "fst (snd (parse_response e c r u)) = L" by simp
  then obtain st c1 where "parse_response e c r u = (st, L, c1)"
    by (metis prod.collapse)
  with r(1,2) show thesis by (rule that)
qed

lemma mset_set_iter:
  "set_iteration e \<Longrightarrow> finite S \<Longrightarrow> mset (set_iter e S) = mset_set S"
  by (metis set_iteration_set set_iteration_distinct mset_set_set)

lemma list_all_update:
  "list_all P ws \<Longrightarrow> P t \<Longrightarrow> list_all P (ws[i := t])"
  by (auto simp: list_all_iff dest: in_updateD)

lemma pending_mem:
  assumes "i < length (workers s)" and "workers s ! i = Fetching u mr"
  shows "(u, mr) \<in># pending s"
proof -
  from sum_list_update_mset [OF assms(1), of in_flight Waiting]
  have "sum_list (map in_flight ((workers s)[i := Waiting])) + {#(u, mr)#} =
          sum_list (map in_flight (workers s))"
    using assms(2) by simp
  moreover have "(u, mr) \<in># sum_list (map in_flight ((workers s)[i := Waiting])) + {#(u, mr)#}"
    by simp
  ultimately have "(u, mr) \<in># sum_list (map in_flight (workers s))"
    by simp
  then show ?thesis by (simp add: pending_def)
qed


lemma pool_take:
  assumes "i < length (workers s)" and "workers s ! i = Waiting"
    and "items (q (self s)) = (u, mr) # rest"
    and "s' = \<lparr>self = (self s)\<lparr>q := (q (self s))\<lparr>items := rest\<rparr>\<rparr>,
               workers = (workers s)[i := Fetching u mr]\<rparr>"
  shows "pending s' = pending s" and "load s' + 1 = load s"
    and "length (items (q (self s'))) + sum_list (map busy (workers s')) =
         length (items (q (self s))) + sum_list (map busy (workers s))"
  using sum_list_update_mset [OF assms(1), of in_flight "Fetching u mr"]
    sum_list_update_nat [OF assms(1), of weight "Fetching u mr"]
    sum_list_update_nat [OF assms(1), of busy "Fetching u mr"] assms(2,3)
  by (simp_all add: assms(4) pending_def load_def)

lemma pool_released:
  assumes "i < length (workers s)" and "workers s ! i = Releasing None"
    and "s' = \<lparr>self = (self s)\<lparr>q := task_done (q (self s))\<rparr>,
               workers = (workers s)[i := Waiting]\<rparr>"
  shows "pending s' = pending s" and "load s' + 1 = load s"
    and "sum_list (map busy (workers s')) + 1 = sum_list (map busy (workers s))"
    and "items (q (self s')) = items (q (self s))"
    and "unfinished_tasks (q (self s')) = unfinished_tasks (q (self s)) - 1"
  using sum_list_update_mset [OF assms(1), of in_flight Waiting]
    sum_list_update_nat [OF assms(1), of weight Waiting]
    sum_list_update_nat [OF assms(1), of busy Waiting] assms(2)
  by (simp_all add: assms(3) pending_def load_def task_done_def)

lemma pool_fetched:
  assumes "i < length (workers s)" and "workers s ! i = Fetching u mr"
    and "s' = \<lparr>self = c, workers = (workers s)[i := Releasing None]\<rparr>"
    and "items (q c) = items (q (self s)) @ new"
  shows "pending s' + {#(u, mr)#} = pending s + mset new"
    and "load s' + 1 = load s + 3 * length new"
    and "sum_list (map busy (workers s')) = sum_list (map busy (workers s))"
  using sum_list_update_mset [OF assms(1), of in_flight "Releasing None"]
    sum_list_update_nat [OF assms(1), of weight "Releasing None"]
    sum_list_update_nat [OF assms(1), of busy "Releasing None"] assms(2)
  by (simp_all add: assms(3,4) pending_def load_def)

lemma small_pending:
  assumes "small_inv c0 R A B s" and "(u, mr) \<in># pending s"
  obtains (root) "seen_urls (self s) = {R}" "visited (self s) = []"
      "image_mset fst (pending s) = {#R#}" "u = R"
  | (leaf) "seen_urls (self s) = {R, A, B}" "image_mset fst (pending s) \<subseteq># {#A, B#}"
      "length (visited (self s)) + size (pending s) = 3" "u = A \<or> u = B"
proof -
  from assms(2) have "u \<in> fst ` set_mset (pending s)" by (rule rev_image_eqI) simp
  then have u: "u \<in># image_mset fst (pending s)" by simp
  from assms(1) have
    "seen_urls (self s) = {R} \<and> visited (self s) = [] \<and> image_mset fst (pending s) = {#R#} \<or>
     seen_urls (self s) = {R, A, B} \<and> image_mset fst (pending s) \<subseteq># {#A, B#} \<and>
       length (visited (self s)) + size (pending s) = 3"
    unfolding small_inv_def by blast
  then show thesis
  proof (elim disjE conjE)
    assume 1: "seen_urls (self s) = {R}" "visited (self s) = []"
      "image_mset fst (pending s) = {#R#}"
    from u 1(3) have "u = R" by simp
    with 1 show thesis by (rule root)
  next
    assume 2: "seen_urls (self s) = {R, A, B}" "image_mset fst (pending s) \<subseteq># {#A, B#}"
      "length (visited (self s)) + size (pending s) = 3"
    from 2(2) u have "u \<in># {#A, B#}" by (rule mset_subset_eqD)
    then have "u = A \<or> u = B" by auto
    with 2 show thesis by (rule leaf)
  qed
qed


lemma set_iter_empty: "set_iteration e \<Longrightarrow> set_iter e {} = []"
  using set_iteration_set [of e "{}"] by simp

lemma leads_to_fetch:
  assumes "leads_to e c0 net u L" and "root_domain c = root_domain c0"
  obtains r st sm where "net u = Some r"
    "fetch e c u mr (Some r) =
       Inr (c\<lparr>sitemap := sm, visited := visited c @ [st],
              q := (q c)\<lparr>items := items (q c) @
                              map (\<lambda>l. (l, max_redirect c)) (set_iter e (L - seen_urls c)),
                           unfinished_tasks := unfinished_tasks (q c) +
                              length (set_iter e (L - seen_urls c))\<rparr>,
              seen_urls := seen_urls c \<union> L\<rparr>)"
proof -
  from assms obtain r st c1 where r: "net u = Some r" "\<not> is_redirect r"
    "parse_response e c r u = (st, L, c1)"
    by (rule leads_toD)
  from r(1) fetch_page [OF r(2,3)] show thesis by (rule that)
qed

lemma small_inv_same:
  assumes "small_inv c0 R A B s"
    and "root_domain (self s') = root_domain (self s)"
    and "seen_urls (self s') = seen_urls (self s)"
    and "visited (self s') = visited (self s)"
    and "pending s' = pending s"
    and "unfinished_tasks (q (self s')) =
           length (items (q (self s'))) + sum_list (map busy (workers s'))"
    and "list_all (\<lambda>t. \<not> failing t) (workers s')"
  shows "small_inv c0 R A B s'"
  using assms(1) unfolding small_inv_def assms(2-5) using assms(6,7) by blast

lemma small_measure_same:
  assumes "pending s' = pending s" and "load s' + 1 = load s"
  shows "small_measure R s' < small_measure R s"
  using assms(2) unfolding small_measure_def assms(1) by simp

lemma small_invD:
  assumes "small_inv c0 R A B s"
  shows "root_domain (self s) = root_domain c0"
    and "unfinished_tasks (q (self s)) =
           length (items (q (self s))) + sum_list (map busy (workers s))"
    and "list_all (\<lambda>t. \<not> failing t) (workers s)"
  using assms unfolding small_inv_def by blast+

lemma small_seen:
  assumes "small_inv c0 R A B s" and "(u, mr) \<in># pending s"
  shows "u \<in> seen_urls (self s)"
  using assms by (cases rule: small_pending) auto

lemma small_leads:
  assumes "small_inv c0 R A B s" and "(u, mr) \<in># pending s"
    and "leads_to e c0 net R {A, B}" and "leads_to e c0 net A {}" and "leads_to e c0 net B {}"
  shows "\<exists>L. leads_to e c0 net u L"
  using assms(1,2)
proof (cases rule: small_pending)
  case root
  with assms(3) show ?thesis by blast
next
  case leaf
  with assms(4,5) show ?thesis by blast
qed


lemma notin_pair:
  assumes "M \<subseteq># {#A, B#}" and "R \<noteq> A" and "R \<noteq> B"
  shows "R \<notin># M"
proof
  assume "R \<in># M"
  with assms(1) have "R \<in># {#A, B#}" by (rule mset_subset_eqD)
  with assms(2,3) show False by simp
qed

lemma small_step:
  assumes it: "set_iteration e" and d: "R \<noteq> A" "R \<noteq> B" "A \<noteq> B"
    and lR: "leads_to e c0 net R {A, B}" and lA: "leads_to e c0 net A {}"
    and lB: "leads_to e c0 net B {}"
    and inv: "small_inv c0 R A B s" and st: "work_step e net s i = Some s'"
  shows "small_inv c0 R A B s' \<and> small_measure R s' < small_measure R s"
  using st
proof (cases rule: work_stepE)
  case (take u mr rest)
  have mem: "(u, mr) \<in># pending s" by (simp add: pending_def take(3))
  with inv have "u \<in> seen_urls (self s)" by (rule small_seen)
  with take(4) have s': "s' = \<lparr>self = (self s)\<lparr>q := (q (self s))\<lparr>items := rest\<rparr>\<rparr>,
               workers = (workers s)[i := Fetching u mr]\<rparr>" by simp
  note e = pool_take [OF take(1,2,3) s']
  have "unfinished_tasks (q (self s')) = unfinished_tasks (q (self s))"
    by (simp add: s')
  with e(3) small_invD(2) [OF inv]
  have cnt: "unfinished_tasks (q (self s')) =
           length (items (q (self s'))) + sum_list (map busy (workers s'))" by simp
  have nf: "list_all (\<lambda>t. \<not> failing t) (workers s')"
    using small_invD(3) [OF inv] by (simp add: s' list_all_update)
  have "small_inv c0 R A B s'"
    using inv _ _ _ e(1) cnt nf by (rule small_inv_same) (simp_all add: s')
  with small_measure_same [OF e(1,2)] show ?thesis by simp
next
  case (raised u mr x)
  from raised(1,2) have mem: "(u, mr) \<in># pending s" by (rule pending_mem)
  from small_leads [OF inv mem lR lA lB] obtain L where "leads_to e c0 net u L" ..
  from this small_invD(1) [OF inv] obtain r st sm c where "net u = Some r"
    "fetch e (self s) u mr (Some r) = Inr c"
    by (rule leads_to_fetch) blast
  with raised(3) show ?thesis by simp
next
  case (client_error u mr)
  from client_error(1,2) have mem: "(u, mr) \<in># pending s" by (rule pending_mem)
  from small_leads [OF inv mem lR lA lB] obtain L where "leads_to e c0 net u L" ..
  with client_error(3) show ?thesis by (simp add: leads_to_def)
next
  case (fetched u mr r c)
  from fetched(1,2) have mem: "(u, mr) \<in># pending s" by (rule pending_mem)
  from inv mem show ?thesis
  proof (cases rule: small_pending)
    case root
    from lR small_invD(1) [OF inv] obtain r' st sm where r': "net R = Some r'"
      "fetch e (self s) R mr (Some r') =
       Inr ((self s)\<lparr>sitemap := sm, visited := visited (self s) @ [st],
              q := (q (self s))\<lparr>items := items (q (self s)) @
                      map (\<lambda>l. (l, max_redirect (self s))) (set_iter e ({A, B} - seen_urls (self s))),
                   unfinished_tasks := unfinished_tasks (q (self s)) +
                      length (set_iter e ({A, B} - seen_urls (self s)))\<rparr>,
              seen_urls := seen_urls (self s) \<union> {A, B}\<rparr>)"
      by (rule leads_to_fetch)
    have diff: "{A, B} - seen_urls (self s) = {A, B}"
      using d root(1) by auto
    have ms: "mset (set_iter e {A, B}) = {#A, B#}"
      using mset_set_iter [OF it, of "{A, B}"] d(3) by simp
    then have len: "length (set_iter e {A, B}) = 2"
      by (metis size_mset size_add_mset size_empty numeral_2_eq_2)
    let ?new = "map (\<lambda>l. (l, max_redirect (self s))) (set_iter e {A, B})"
    from r' fetched(3,4) root(4) have c: "c = (self s)\<lparr>sitemap := sm,
              visited := visited (self s) @ [st],
              q := (q (self s))\<lparr>items := items (q (self s)) @ ?new,
                   unfinished_tasks := unfinished_tasks (q (self s)) + 2\<rparr>,
              seen_urls := seen_urls (self s) \<union> {A, B}\<rparr>"
      by (simp add: diff len)
    then have its: "items (q c) = items (q (self s)) @ ?new" by simp
    note e = pool_fetched [OF fetched(1,2,5) its]
    have "image_mset fst (pending s' + {#(u, mr)#}) = image_mset fst (pending s + mset ?new)"
      using e(1) by simp
    moreover have "map fst ?new = set_iter e {A, B}"
      by (simp add: comp_def)
    then have "image_mset fst (mset ?new) = {#A, B#}"
      using ms by (metis mset_map)
    ultimately have "image_mset fst (pending s') + {#R#} = {#R#} + {#A, B#}"
      using root(3,4) by simp
    then have img: "image_mset fst (pending s') = {#A, B#}" by simp
    then have "size (image_mset fst (pending s')) = 2" by simp
    then have sz: "size (pending s') = 2" by simp
    have self': "self s' = c" "workers s' = (workers s)[i := Releasing None]"
      by (simp_all add: fetched(5))
    have "small_inv c0 R A B s'"
      unfolding small_inv_def
    proof (intro conjI disjI2)
      show "root_domain (self s') = root_domain c0"
        using small_invD(1) [OF inv] by (simp add: self' c)
      show "unfinished_tasks (q (self s')) =
              length (items (q (self s'))) + sum_list (map busy (workers s'))"
        using small_invD(2) [OF inv] e(3) by (simp add: self'(1) c len)
      show "list_all (\<lambda>t. \<not> failing t) (workers s')"
        using small_invD(3) [OF inv] by (simp add: self'(2) list_all_update)
      show "seen_urls (self s') = {R, A, B}"
        using root(1) by (auto simp: self'(1) c)
      show "image_mset fst (pending s') \<subseteq># {#A, B#}" by (simp add: img)
      show "length (visited (self s')) + size (pending s') = 3"
        using root(2) sz by (simp add: self'(1) c)
    qed
    moreover have "small_measure R s' < small_measure R s"
      using e(2) d root(3) by (simp add: small_measure_def img len)
    ultimately show ?thesis ..
  next
    case leaf
    from leaf(4) lA lB have "leads_to e c0 net u {}" by blast
    from this small_invD(1) [OF inv] obtain r' st sm where r': "net u = Some r'"
      "fetch e (self s) u mr (Some r') =
       Inr ((self s)\<lparr>sitemap := sm, visited := visited (self s) @ [st],
              q := (q (self s))\<lparr>items := items (q (self s)) @
                      map (\<lambda>l. (l, max_redirect (self s))) (set_iter e ({} - seen_urls (self s))),
                   unfinished_tasks := unfinished_tasks (q (self s)) +
                      length (set_iter e ({} - seen_urls (self s)))\<rparr>,
              seen_urls := seen_urls (self s) \<union> {}\<rparr>)"
      by (rule leads_to_fetch)
    from r' fetched(3,4) have "(self s)\<lparr>sitemap := sm,
              visited := visited (self s) @ [st]\<rparr> = c"
      by (simp add: set_iter_empty [OF it])
    then have c: "c = (self s)\<lparr>sitemap := sm, visited := visited (self s) @ [st]\<rparr>" ..
    then have its: "items (q c) = items (q (self s)) @ []" by simp
    note e = pool_fetched [OF fetched(1,2,5) its]
    from e(1) have p: "pending s = pending s' + {#(u, mr)#}" by simp
    have "pending s' \<subseteq># pending s' + {#(u, mr)#}" by simp
    then have "pending s' \<subseteq># pending s" by (simp only: p)
    then have "image_mset fst (pending s') \<subseteq># image_mset fst (pending s)"
      by (rule image_mset_subseteq_mono)
    then have sub: "image_mset fst (pending s') \<subseteq># {#A, B#}"
      using leaf(2) by (rule subset_mset.order_trans)
    have sz: "size (pending s) = size (pending s') + 1"
      unfolding p by simp
    have nR: "R \<notin># image_mset fst (pending s)" "R \<notin># image_mset fst (pending s')"
      by (rule notin_pair [OF leaf(2) d(1,2)], rule notin_pair [OF sub d(1,2)])
    have self': "self s' = c" "workers s' = (workers s)[i := Releasing None]"
      by (simp_all add: fetched(5))
    have "small_inv c0 R A B s'"
      unfolding small_inv_def
    proof (intro conjI disjI2)
      show "root_domain (self s') = root_domain c0"
        using small_invD(1) [OF inv] by (simp add: self' c)
      show "unfinished_tasks (q (self s')) =
              length (items (q (self s'))) + sum_list (map busy (workers s'))"
        using small_invD(2) [OF inv] e(3) by (simp add: self'(1) c)
      show "list_all (\<lambda>t. \<not> failing t) (workers s')"
        using small_invD(3) [OF inv] by (simp add: self'(2) list_all_update)
      show "seen_urls (self s') = {R, A, B}"
        using leaf(1) by (simp add: self'(1) c)
      show "image_mset fst (pending s') \<subseteq># {#A, B#}" by (rule sub)
      show "length (visited (self s')) + size (pending s') = 3"
        using leaf(3) sz by (simp add: self'(1) c)
    qed
    moreover have "small_measure R s' < small_measure R s"
      using e(2) nR by (simp add: small_measure_def)
    ultimately show ?thesis ..
  qed
next
  case released
  note e = pool_released [OF released]
  from e(3) small_invD(2) [OF inv] e(4,5)
  have cnt: "unfinished_tasks (q (self s')) =
           length (items (q (self s'))) + sum_list (map busy (workers s'))" by simp
  have nf: "list_all (\<lambda>t. \<not> failing t) (workers s')"
    using small_invD(3) [OF inv] by (simp add: released(3) list_all_update)
  have "small_inv c0 R A B s'"
    using inv _ _ _ e(1) cnt nf by (rule small_inv_same) (simp_all add: released(3) task_done_def)
  with small_measure_same [OF e(1,2)] show ?thesis by simp
next
  case (failed x)
  from small_invD(3) [OF inv] failed(1) have "\<not> failing (workers s ! i)"
    by (simp add: list_all_length)
  with failed(2) show ?thesis by simp
qed


text \<open>The pool \<^verbatim>\<open>crawl\<close> starts with, and when a pool can take a step.\<close>

lemma sum_list_replicate_empty: "sum_list (replicate n ({#} :: 'a multiset)) = {#}"
  by (induction n) simp_all

lemma crawl_quantities:
  "pending (crawl (init e r mr mt)) = {#(r, mr)#}"
  "load (crawl (init e r mr mt)) = 3"
  "sum_list (map busy (workers (crawl (init e r mr mt)))) = 0"
  "list_all (\<lambda>t. \<not> failing t) (workers (crawl (init e r mr mt)))"
  "length (workers (crawl (init e r mr mt))) = nat mt"
  "self (crawl (init e r mr mt)) = init e r mr mt"
  by (simp_all add: pending_def load_def crawl_def init_fields sum_list_replicate_empty
        list_all_length)

lemma small_inv_crawl: "small_inv (init e R mr mt) R A B (crawl (init e R mr mt))"
  unfolding small_inv_def
  using crawl_quantities [of e R mr mt] by (simp add: init_fields)

lemma small_measure_crawl: "small_measure R (crawl (init e R mr mt)) = 9"
  by (simp add: small_measure_def crawl_quantities)

lemma work_step_length:
  assumes "work_step e net s i = Some s'"
  shows "length (workers s') = length (workers s)"
  using assms by (cases rule: work_stepE) simp_all

lemma busy_zero_iff: "busy t = 0 \<longleftrightarrow> t = Waiting"
  by (cases t) simp_all

lemma busy_zero: "sum_list (map busy ws) = 0 \<Longrightarrow> t \<in> set ws \<Longrightarrow> t = Waiting"
  by (induction ws) (auto simp: busy_zero_iff)

lemma busy_zero_in_flight: "sum_list (map busy ws) = 0 \<Longrightarrow> sum_list (map in_flight ws) = {#}"
  by (induction ws) (auto simp: busy_zero_iff)

lemma busy_pos: "sum_list (map busy ws) \<noteq> 0 \<Longrightarrow> \<exists>i < length ws. ws ! i \<noteq> Waiting"
proof (induction ws)
  case Nil
  then show ?case by simp
next
  case (Cons t ws)
  show ?case
  proof (cases "t = Waiting")
    case True
    with Cons obtain i where "i < length ws" "ws ! i \<noteq> Waiting" by auto
    then have "Suc i < length (t # ws)" "(t # ws) ! Suc i \<noteq> Waiting" by simp_all
    then show ?thesis by blast
  next
    case False
    then have "0 < length (t # ws)" "(t # ws) ! 0 \<noteq> Waiting" by simp_all
    then show ?thesis by blast
  qed
qed

lemma progress:
  assumes cnt: "unfinished_tasks (q (self s)) =
      length (items (q (self s))) + sum_list (map busy (workers s))"
    and nf: "list_all (\<lambda>t. \<not> failing t) (workers s)"
    and ws: "workers s \<noteq> []" and nd: "\<not> drained s"
  shows "\<exists>s'. step e net s s'"
proof (cases "sum_list (map busy (workers s)) = 0")
  case True
  with cnt nd have "items (q (self s)) \<noteq> []"
    by (simp add: drained_def joined_def)
  then obtain u mr rest where its: "items (q (self s)) = (u, mr) # rest"
    by (cases "items (q (self s))") auto
  from ws have 0: "0 < length (workers s)" by simp
  then have "workers s ! 0 = Waiting"
    using busy_zero [OF True] by simp
  with 0 its have "\<exists>s'. work_step e net s 0 = Some s'"
    by (simp add: work_step_def)
  with 0 show ?thesis unfolding step_def by blast
next
  case False
  then obtain i where i: "i < length (workers s)" "workers s ! i \<noteq> Waiting"
    using busy_pos by blast
  from nf i(1) have "\<not> failing (workers s ! i)" by (simp add: list_all_length)
  with i have "\<exists>s'. work_step e net s i = Some s'"
    by (cases "workers s ! i" rule: failing.cases)
       (simp_all add: work_step_def split: sum.splits)
  with i(1) show ?thesis unfolding step_def by blast
qed

lemma idle_stuck:
  assumes "sum_list (map busy (workers s)) = 0" and "items (q (self s)) = []"
  shows "\<not> step e net s s'"
proof
  assume "step e net s s'"
  then obtain i where i: "i < length (workers s)" "work_step e net s i = Some s'"
    unfolding step_def by blast
  from i(1) have "workers s ! i = Waiting"
    using busy_zero [OF assms(1)] by simp
  with i assms(2) show False by (simp add: work_step_def)
qed


lemma small_reach:
  assumes it: "set_iteration e" and d: "R \<noteq> A" "R \<noteq> B" "A \<noteq> B"
    and lR: "leads_to e c0 net R {A, B}" and lA: "leads_to e c0 net A {}"
    and lB: "leads_to e c0 net B {}"
    and inv: "small_inv c0 R A B s0" and run: "(step e net ^^ n) s0 s"
  shows "small_inv c0 R A B s \<and> small_measure R s + n \<le> small_measure R s0 \<and>
         length (workers s) = length (workers s0)"
  using run
proof (induction n arbitrary: s)
  case 0
  with inv show ?case by simp
next
  case (Suc n)
  from Suc.prems obtain y where y: "(step e net ^^ n) s0 y" "step e net y s"
    by auto
  from Suc.IH [OF y(1)] have iy: "small_inv c0 R A B y"
    "small_measure R y + n \<le> small_measure R s0" "length (workers y) = length (workers s0)"
    by simp_all
  from y(2) obtain i where i: "work_step e net y i = Some s"
    unfolding step_def by blast
  from small_step [OF it d lR lA lB iy(1) i] work_step_length [OF i] iy(2,3)
  show ?case by simp
qed

lemma small_drained:
  assumes "small_inv c0 R A B s" and "drained s"
  shows "length (visited (self s)) = 3 \<and> items (q (self s)) = [] \<and> (\<forall>s'. \<not> step e net s s')"
proof -
  from assms(2) small_invD(2) [OF assms(1)]
  have z: "items (q (self s)) = []" "sum_list (map busy (workers s)) = 0"
    by (simp_all add: drained_def joined_def)
  then have p: "pending s = {#}"
    by (simp add: pending_def busy_zero_in_flight)
  have "(u, mr) \<notin># pending s" for u mr by (simp add: p)
  from assms(1) have "length (visited (self s)) + size (pending s) = 3"
    unfolding small_inv_def p by simp
  with p z idle_stuck [OF z(2,1)] show ?thesis by simp
qed

lemma small_drains:
  assumes it: "set_iteration e" and d: "R \<noteq> A" "R \<noteq> B" "A \<noteq> B"
    and lR: "leads_to e c0 net R {A, B}" and lA: "leads_to e c0 net A {}"
    and lB: "leads_to e c0 net B {}"
    and inv: "small_inv c0 R A B s" and ws: "workers s \<noteq> []"
  shows "\<exists>n s'. (step e net ^^ n) s s' \<and> drained s'"
  using inv ws
proof (induction "small_measure R s" arbitrary: s rule: less_induct)
  case less
  show ?case
  proof (cases "drained s")
    case True
    then have "(step e net ^^ 0) s s \<and> drained s" by simp
    then show ?thesis by blast
  next
    case False
    from progress [OF small_invD(2,3) [OF less.prems(1)] less.prems(2) False]
    obtain s1 where st1: "step e net s s1" by blast
    then obtain i where i: "i < length (workers s)" "work_step e net s i = Some s1"
      unfolding step_def by blast
    from small_step [OF it d lR lA lB less.prems(1) i(2)]
    have s1: "small_inv c0 R A B s1" "small_measure R s1 < small_measure R s" by simp_all
    from work_step_length [OF i(2)] less.prems(2) have "workers s1 \<noteq> []" by auto
    from less.hyps [OF s1(2,1) this] obtain n s' where
      n: "(step e net ^^ n) s1 s'" "drained s'" by blast
    from st1 n(1) have "(step e net ^^ Suc n) s s'" by (rule relpowp_Suc_I2)
    with n(2) show ?thesis by blast
  qed
qed

lemma small_site_crawl:
  assumes it: "set_iteration e" and mt: "0 < mt" and d: "R \<noteq> A" "R \<noteq> B" "A \<noteq> B"
    and lR: "leads_to e (init e R mr mt) net R {A, B}"
    and lA: "leads_to e (init e R mr mt) net A {}"
    and lB: "leads_to e (init e R mr mt) net B {}"
  shows "(\<exists>n s. (step e net ^^ n) (crawl (init e R mr mt)) s \<and> drained s) \<and>
         (\<forall>n s. (step e net ^^ n) (crawl (init e R mr mt)) s \<longrightarrow>
            n \<le> 9 \<and> (\<not> drained s \<longrightarrow> (\<exists>s'. step e net s s')) \<and>
            (drained s \<longrightarrow> length (visited (self s)) = 3 \<and> items (q (self s)) = [] \<and>
               (\<forall>s'. \<not> step e net s s')))"
proof (intro conjI allI impI)
  from mt have ws: "workers (crawl (init e R mr mt)) \<noteq> []"
    using crawl_quantities(5) [of e R mr mt] by auto
  from small_drains [OF it d lR lA lB small_inv_crawl ws]
  show "\<exists>n s. (step e net ^^ n) (crawl (init e R mr mt)) s \<and> drained s" .
next
  fix n s
  assume run: "(step e net ^^ n) (crawl (init e R mr mt)) s"
  note r = small_reach [OF it d lR lA lB small_inv_crawl run]
  from r show "n \<le> 9" by (simp add: small_measure_crawl)
  from r mt have ws: "workers s \<noteq> []"
    using crawl_quantities(5) [of e R mr mt] by auto
  {
    assume "\<not> drained s"
    with r ws show "\<exists>s'. step e net s s'"
      using progress small_invD(2,3) by blast
  }
  {
    assume dr: "drained s"
    from r have "small_inv (init e R mr mt) R A B s" by simp
    from small_drained [OF this dr, of e net]
    show "length (visited (self s)) = 3" "items (q (self s)) = []"
      "\<And>s'. \<not> step e net s s'" by simp_all
  }
qed


text \<open>The example site.\<close>

lemma hrefs_root: "example_hrefs ''<a href=/a>A</a> <a href=/b>B</a>'' = [''/a'', ''/b'']"
  by (simp add: startswith_def)

lemma hrefs_leaf: "example_hrefs ''no links'' = []"
  by (simp add: startswith_def)

lemma page_links_example:
  "fst (snd (parse_response example_env c (page u 200 ''text/html'' txt) v)) =
     Set.filter (url_allowed example_env c)
       ((\<lambda>x. normalize_url example_env x (page u 200 ''text/html'' txt)) ` set (example_hrefs txt))"
  by (simp add: parse_response_def page_def example_env_sel Let_def)

lemma norm_example:
  "normalize_url example_env ''/a'' (page ''http://example.com/'' 200 ''text/html'' txt) = ''http://example.com/a''"
  "normalize_url example_env ''/b'' (page ''http://example.com/'' 200 ''text/html'' txt) = ''http://example.com/b''"
  by (simp_all add: normalize_url_def page_def example_defs)

lemma allowed_example:
  "root_domain c = ''example.com'' \<Longrightarrow> url_allowed example_env c ''http://example.com/a''"
  "root_domain c = ''example.com'' \<Longrightarrow> url_allowed example_env c ''http://example.com/b''"
  by (simp_all add: url_allowed_def host_okay_def example_defs)

lemma links_root:
  "fst (snd (parse_response example_env (init example_env ''http://example.com/'' mr mt)
       (page ''http://example.com/'' 200 ''text/html'' ''<a href=/a>A</a> <a href=/b>B</a>'') v)) =
   {''http://example.com/a'', ''http://example.com/b''}"
  unfolding page_links_example hrefs_root
  by (auto simp: norm_example allowed_example example_init)

lemma links_leaf:
  "fst (snd (parse_response example_env c (page u 200 ''text/html'' ''no links'') v)) = {}"
  unfolding page_links_example hrefs_leaf by simp

lemma small_site_leads:
  "leads_to example_env (init example_env ''http://example.com/'' mr mt) small_site
     ''http://example.com/'' {''http://example.com/a'', ''http://example.com/b''}"
  "leads_to example_env c small_site ''http://example.com/a'' {}"
  "leads_to example_env c small_site ''http://example.com/b'' {}"
  by (simp_all add: leads_to_def small_site_def links_root links_leaf)
     (simp_all add: is_redirect_def page_def)

text \<open>
  C2. Let the root page link to two pages in scope that have no links (each is fetched
  without error, is not a redirect, and \<^verbatim>\<open>parse_response\<close> returns these links for
  it), with \<^verbatim>\<open>max_tasks\<close> 1 or 10. Then from the pool that \<^verbatim>\<open>crawl\<close> starts,
  whichever task runs next at each step: a state in which \<^verbatim>\<open>q.join()\<close> returns is
  reached; no run has more than 9 steps; a state in which \<^verbatim>\<open>q.join()\<close> does not yet
  return always has a task that can run (no deadlock); and when \<^verbatim>\<open>q.join()\<close> returns,
  exactly 3 statistics have been recorded, the queue is empty and no task can run.
\<close>

theorem crawl_small_site:
  assumes "set_iteration e" and "mt = 1 \<or> mt = 10"
    and "R \<noteq> A" "R \<noteq> B" "A \<noteq> B"
    and "leads_to e (init e R mr mt) net R {A, B}"
    and "leads_to e (init e R mr mt) net A {}"
    and "leads_to e (init e R mr mt) net B {}"
  shows "(\<exists>n s. (step e net ^^ n) (crawl (init e R mr mt)) s \<and> drained s) \<and>
         (\<forall>n s. (step e net ^^ n) (crawl (init e R mr mt)) s \<longrightarrow>
            n \<le> 9 \<and> (\<not> drained s \<longrightarrow> (\<exists>s'. step e net s s')) \<and>
            (drained s \<longrightarrow> length (visited (self s)) = 3 \<and> items (q (self s)) = [] \<and>
               (\<forall>s'. \<not> step e net s s')))"
proof -
  from assms(2) have "0 < mt" by auto
  with assms(1) show ?thesis using assms(3-8) by (rule small_site_crawl)
qed

theorem crawl_small_site_witness:
  "set_iteration example_env \<and>
   leads_to example_env (init example_env ''http://example.com/'' 10 1) small_site
     ''http://example.com/'' {''http://example.com/a'', ''http://example.com/b''} \<and>
   leads_to example_env (init example_env ''http://example.com/'' 10 1) small_site
     ''http://example.com/a'' {} \<and>
   leads_to example_env (init example_env ''http://example.com/'' 10 1) small_site
     ''http://example.com/b'' {} \<and>
   (\<exists>n s. (step example_env small_site ^^ n)
             (crawl (init example_env ''http://example.com/'' 10 1)) s \<and>
          drained s \<and> length (visited (self s)) = 3) \<and>
   (\<exists>n s. (step example_env small_site ^^ n)
             (crawl (init example_env ''http://example.com/'' 10 10)) s \<and>
          drained s \<and> length (visited (self s)) = 3)"
proof -
  have d: "''http://example.com/'' \<noteq> ''http://example.com/a''"
    "''http://example.com/'' \<noteq> ''http://example.com/b''"
    "''http://example.com/a'' \<noteq> ''http://example.com/b''" by simp_all
  have m: "(1::int) = 1 \<or> (1::int) = 10" "(10::int) = 1 \<or> (10::int) = 10" by simp_all
  note t1 = crawl_small_site [OF set_iteration_example m(1) d small_site_leads]
  note t10 = crawl_small_site [OF set_iteration_example m(2) d small_site_leads]
  from t1 have "\<exists>n s. (step example_env small_site ^^ n)
             (crawl (init example_env ''http://example.com/'' 10 1)) s \<and>
          drained s \<and> length (visited (self s)) = 3" by blast
  moreover from t10 have "\<exists>n s. (step example_env small_site ^^ n)
             (crawl (init example_env ''http://example.com/'' 10 10)) s \<and>
          drained s \<and> length (visited (self s)) = 3" by blast
  ultimately show ?thesis
    using set_iteration_example small_site_leads by blast
qed

subsection \<open>Following a chain of redirects\<close>

lemma parse_response_stat:
  assumes "parse_response e c r u = (st, links, c1)"
  shows "fs_url st = resp_url r" and "fs_status st = resp_status r"
  using assms by (auto simp: parse_response_def Let_def split: prod.splits)

lemma leads_to_page:
  assumes "leads_to e c0 net u L" and "root_domain c = root_domain c0"
  obtains r st sm where "net u = Some r" "fs_url st = resp_url r" "fs_status st = resp_status r"
    "fetch e c u mr (Some r) =
       Inr (c\<lparr>sitemap := sm, visited := visited c @ [st],
              q := (q c)\<lparr>items := items (q c) @
                              map (\<lambda>l. (l, max_redirect c)) (set_iter e (L - seen_urls c)),
                           unfinished_tasks := unfinished_tasks (q c) +
                              length (set_iter e (L - seen_urls c))\<rparr>,
              seen_urls := seen_urls c \<union> L\<rparr>)"
proof -
  from assms obtain r st c1 where r: "net u = Some r" "\<not> is_redirect r"
    "parse_response e c r u = (st, L, c1)"
    by (rule leads_toD)
  from r(1) parse_response_stat [OF r(3)] fetch_page [OF r(2,3)] show thesis by (rule that)
qed

lemma redirects_to_fetch:
  assumes "redirects_to e net u v"
  obtains r where "net u = Some r"
    "fetch e c u mr (Some r) =
       Inr (if v \<in> seen_urls c then c
            else if 0 < mr then add_url c v (Some (mr - 1)) else c)"
proof -
  from assms obtain r loc where r: "net u = Some r" "is_redirect r"
    "resp_headers r ''location'' = Some loc" "urljoin e u loc = v"
    by (auto simp: redirects_to_def split: option.splits)
  then have "fetch e c u mr (Some r) =
       Inr (if v \<in> seen_urls c then c
            else if 0 < mr then add_url c v (Some (mr - 1)) else c)"
    by (simp add: fetch_def process_redirect_def Let_def)
  with r(1) show thesis by (rule that)
qed

lemma chain_invD:
  assumes "chain_inv net c0 hop L M s"
  shows "root_domain (self s) = root_domain c0"
    and "unfinished_tasks (q (self s)) =
           length (items (q (self s))) + sum_list (map busy (workers s))"
    and "list_all (\<lambda>t. \<not> failing t) (workers s)"
  using assms unfolding chain_inv_def by blast+

lemma chain_pending:
  assumes "chain_inv net c0 hop L M s" and "(u, mr) \<in># pending s"
  obtains k where "k \<le> min L M" "pending s = {#(hop k, int M - int k)#}"
    "seen_urls (self s) = hop ` {..k}" "visited (self s) = []"
    "u = hop k" "mr = int M - int k"
proof -
  from assms(2) have ne: "pending s \<noteq> {#}" by auto
  from assms(1) have
    "(\<exists>k \<le> min L M. pending s = {#(hop k, int M - int k)#} \<and>
          seen_urls (self s) = hop ` {..k} \<and> visited (self s) = []) \<or> pending s = {#}"
    unfolding chain_inv_def by blast
  with ne obtain k where k: "k \<le> min L M" "pending s = {#(hop k, int M - int k)#}"
    "seen_urls (self s) = hop ` {..k}" "visited (self s) = []" by blast
  from assms(2) k(2) have "u = hop k" "mr = int M - int k" by simp_all
  with k show thesis by (rule that)
qed

lemma chain_inv_same:
  assumes "chain_inv net c0 hop L M s"
    and "root_domain (self s') = root_domain (self s)"
    and "seen_urls (self s') = seen_urls (self s)"
    and "visited (self s') = visited (self s)"
    and "pending s' = pending s"
    and "unfinished_tasks (q (self s')) =
           length (items (q (self s'))) + sum_list (map busy (workers s'))"
    and "list_all (\<lambda>t. \<not> failing t) (workers s')"
  shows "chain_inv net c0 hop L M s'"
  using assms(1) unfolding chain_inv_def assms(2-5) using assms(6,7) by blast

lemma chain_measure_same:
  assumes "pending s' = pending s" and "load s' + 1 = load s"
  shows "chain_measure s' < chain_measure s"
  using assms(2) unfolding chain_measure_def assms(1) by simp


lemma chain_hop:
  assumes "chain e c0 net hop L" and "k \<le> L"
  shows "hop (Suc k) \<notin> hop ` {..k} \<or> L \<le> k"
proof (cases "k < L")
  case True
  from assms(1) have inj: "inj_on hop {..L}" by (simp add: chain_def)
  have "hop (Suc k) \<notin> hop ` {..k}"
  proof
    assume "hop (Suc k) \<in> hop ` {..k}"
    then obtain j where j: "j \<le> k" "hop (Suc k) = hop j" by auto
    with True inj have "Suc k = j" by (auto dest!: inj_onD [where x = "Suc k" and y = j])
    with j(1) show False by simp
  qed
  then show ?thesis ..
next
  case False
  then show ?thesis by simp
qed

lemma chain_step:
  assumes it: "set_iteration e" and ch: "chain e c0 net hop L"
    and inv: "chain_inv net c0 hop L M s" and st: "work_step e net s i = Some s'"
  shows "chain_inv net c0 hop L M s' \<and> chain_measure s' < chain_measure s"
  using st
proof (cases rule: work_stepE)
  case (take u mr rest)
  have mem: "(u, mr) \<in># pending s" by (simp add: pending_def take(3))
  from inv mem have "u \<in> seen_urls (self s)"
    by (rule chain_pending) simp
  with take(4) have s': "s' = \<lparr>self = (self s)\<lparr>q := (q (self s))\<lparr>items := rest\<rparr>\<rparr>,
               workers = (workers s)[i := Fetching u mr]\<rparr>" by simp
  note e = pool_take [OF take(1,2,3) s']
  have "unfinished_tasks (q (self s')) = unfinished_tasks (q (self s))"
    by (simp add: s')
  with e(3) chain_invD(2) [OF inv]
  have cnt: "unfinished_tasks (q (self s')) =
           length (items (q (self s'))) + sum_list (map busy (workers s'))" by simp
  have nf: "list_all (\<lambda>t. \<not> failing t) (workers s')"
    using chain_invD(3) [OF inv] by (simp add: s' list_all_update)
  have "chain_inv net c0 hop L M s'"
    using inv _ _ _ e(1) cnt nf by (rule chain_inv_same) (simp_all add: s')
  with chain_measure_same [OF e(1,2)] show ?thesis by simp
next
  case (raised u mr x)
  from raised(1,2) have mem: "(u, mr) \<in># pending s" by (rule pending_mem)
  from inv mem obtain k where k: "k \<le> min L M" "u = hop k" by (rule chain_pending)
  have "\<exists>r c. net u = Some r \<and> fetch e (self s) u mr (Some r) = Inr c"
  proof (cases "k < L")
    case True
    with ch k(2) have "redirects_to e net u (hop (Suc k))" by (simp add: chain_def)
    then show ?thesis by (rule redirects_to_fetch) blast
  next
    case False
    with k ch have "leads_to e c0 net u {}" by (simp add: chain_def)
    from this chain_invD(1) [OF inv] show ?thesis by (rule leads_to_page) blast
  qed
  with raised(3) show ?thesis by auto
next
  case (client_error u mr)
  from client_error(1,2) have mem: "(u, mr) \<in># pending s" by (rule pending_mem)
  from inv mem obtain k where k: "k \<le> min L M" "u = hop k" by (rule chain_pending)
  have "net u \<noteq> None"
  proof (cases "k < L")
    case True
    with ch k(2) have "redirects_to e net u (hop (Suc k))" by (simp add: chain_def)
    then show ?thesis by (auto simp: redirects_to_def split: option.splits)
  next
    case False
    with k ch have "leads_to e c0 net u {}" by (simp add: chain_def)
    then show ?thesis by (auto simp: leads_to_def split: option.splits)
  qed
  with client_error(3) show ?thesis by simp
next
  case (fetched u mr r c)
  from fetched(1,2) have mem: "(u, mr) \<in># pending s" by (rule pending_mem)
  from inv mem obtain k where k: "k \<le> min L M" "pending s = {#(hop k, int M - int k)#}"
    "seen_urls (self s) = hop ` {..k}" "visited (self s) = []"
    "u = hop k" "mr = int M - int k"
    by (rule chain_pending)
  have self': "self s' = c" "workers s' = (workers s)[i := Releasing None]"
    by (simp_all add: fetched(5))
  have nf: "list_all (\<lambda>t. \<not> failing t) (workers s')"
    using chain_invD(3) [OF inv] by (simp add: self'(2) list_all_update)
  consider (follow) "k < L" "k < M" | (limit) "k < L" "k = M" | (final) "k = L"
    using k(1) by linarith
  then show ?thesis
  proof cases
    case follow
    from ch follow(1) k(5) have "redirects_to e net u (hop (Suc k))" by (simp add: chain_def)
    then obtain r' where r': "net u = Some r'"
      "fetch e (self s) u mr (Some r') =
       Inr (if hop (Suc k) \<in> seen_urls (self s) then self s
            else if 0 < mr then add_url (self s) (hop (Suc k)) (Some (mr - 1)) else self s)"
      by (rule redirects_to_fetch)
    from chain_hop [OF ch, of k] follow(1) have new: "hop (Suc k) \<notin> seen_urls (self s)"
      by (simp add: k(3))
    from follow(2) k(6) have pos: "0 < mr" by simp
    from r' fetched(3,4) new pos have c: "c = add_url (self s) (hop (Suc k)) (Some (mr - 1))"
      by simp
    then have its: "items (q c) = items (q (self s)) @ [(hop (Suc k), mr - 1)]"
      by (simp add: add_url_def put_nowait_def)
    note e = pool_fetched [OF fetched(1,2,5) its]
    from e(1) have p: "pending s' = {#(hop (Suc k), int M - int (Suc k))#}"
      by (simp add: k(2,5,6))
    have "chain_inv net c0 hop L M s'"
      unfolding chain_inv_def
    proof (intro conjI disjI1 exI [of _ "Suc k"])
      show "root_domain (self s') = root_domain c0"
        using chain_invD(1) [OF inv] by (simp add: self'(1) c add_url_def)
      show "unfinished_tasks (q (self s')) =
              length (items (q (self s'))) + sum_list (map busy (workers s'))"
        using chain_invD(2) [OF inv] e(3) by (simp add: self'(1) c add_url_def put_nowait_def)
      show "list_all (\<lambda>t. \<not> failing t) (workers s')" by (rule nf)
      show "Suc k \<le> min L M" using follow by simp
      show "pending s' = {#(hop (Suc k), int M - int (Suc k))#}" by (rule p)
      show "seen_urls (self s') = hop ` {..Suc k}"
        by (simp add: self'(1) c add_url_def k(3) atMost_Suc)
      show "visited (self s') = []"
        by (simp add: self'(1) c add_url_def k(4))
    qed
    moreover have "chain_measure s' < chain_measure s"
      using e(2) follow(2) by (simp add: chain_measure_def p k(2))
    ultimately show ?thesis ..
  next
    case limit
    from ch limit(1) k(5) have "redirects_to e net u (hop (Suc k))" by (simp add: chain_def)
    then obtain r' where r': "net u = Some r'"
      "fetch e (self s) u mr (Some r') =
       Inr (if hop (Suc k) \<in> seen_urls (self s) then self s
            else if 0 < mr then add_url (self s) (hop (Suc k)) (Some (mr - 1)) else self s)"
      by (rule redirects_to_fetch)
    from limit(2) k(6) have "mr = 0" by simp
    with r' fetched(3,4) have c: "c = self s" by (simp split: if_splits)
    then have its: "items (q c) = items (q (self s)) @ []" by simp
    note e = pool_fetched [OF fetched(1,2,5) its]
    from e(1) have p: "pending s' = {#}" by (simp add: k(2,5,6))
    from limit have m: "min L M = k" "\<not> L \<le> M" by simp_all
    have "chain_inv net c0 hop L M s'"
      unfolding chain_inv_def
    proof (intro conjI disjI2)
      show "root_domain (self s') = root_domain c0"
        using chain_invD(1) [OF inv] by (simp add: self'(1) c)
      show "unfinished_tasks (q (self s')) =
              length (items (q (self s'))) + sum_list (map busy (workers s'))"
        using chain_invD(2) [OF inv] e(3) by (simp add: self'(1) c)
      show "list_all (\<lambda>t. \<not> failing t) (workers s')" by (rule nf)
      show "pending s' = {#}" by (rule p)
      show "seen_urls (self s') = hop ` {..min L M}"
        by (simp add: self'(1) c k(3) m)
      show "if L \<le> M
         then \<exists>st. visited (self s') = [st] \<and>
                (\<forall>r. net (hop L) = Some r \<longrightarrow>
                   fs_url st = resp_url r \<and> fs_status st = resp_status r)
         else visited (self s') = []"
        by (simp add: m(2) self'(1) c k(4))
    qed
    moreover have "chain_measure s' < chain_measure s"
      using e(2) by (simp add: chain_measure_def p k(2))
    ultimately show ?thesis ..
  next
    case final
    with k ch have "leads_to e c0 net u {}" by (simp add: chain_def)
    from this chain_invD(1) [OF inv] obtain r' st sm where r': "net u = Some r'"
      "fs_url st = resp_url r'" "fs_status st = resp_status r'"
      "fetch e (self s) u mr (Some r') =
       Inr ((self s)\<lparr>sitemap := sm, visited := visited (self s) @ [st],
              q := (q (self s))\<lparr>items := items (q (self s)) @
                      map (\<lambda>l. (l, max_redirect (self s))) (set_iter e ({} - seen_urls (self s))),
                   unfinished_tasks := unfinished_tasks (q (self s)) +
                      length (set_iter e ({} - seen_urls (self s)))\<rparr>,
              seen_urls := seen_urls (self s) \<union> {}\<rparr>)"
      by (rule leads_to_page)
    from r'(1,4) fetched(3,4) have "(self s)\<lparr>sitemap := sm,
              visited := visited (self s) @ [st]\<rparr> = c"
      by (simp add: set_iter_empty [OF it])
    then have c: "c = (self s)\<lparr>sitemap := sm, visited := visited (self s) @ [st]\<rparr>" ..
    then have its: "items (q c) = items (q (self s)) @ []" by simp
    note e = pool_fetched [OF fetched(1,2,5) its]
    from e(1) have p: "pending s' = {#}" by (simp add: k(2,5,6))
    from final k(1) have m: "min L M = k" "L \<le> M" by simp_all
    have "chain_inv net c0 hop L M s'"
      unfolding chain_inv_def
    proof (intro conjI disjI2)
      show "root_domain (self s') = root_domain c0"
        using chain_invD(1) [OF inv] by (simp add: self'(1) c)
      show "unfinished_tasks (q (self s')) =
              length (items (q (self s'))) + sum_list (map busy (workers s'))"
        using chain_invD(2) [OF inv] e(3) by (simp add: self'(1) c)
      show "list_all (\<lambda>t. \<not> failing t) (workers s')" by (rule nf)
      show "pending s' = {#}" by (rule p)
      show "seen_urls (self s') = hop ` {..min L M}"
        by (simp add: self'(1) c k(3) m)
      show "if L \<le> M
         then \<exists>st. visited (self s') = [st] \<and>
                (\<forall>r. net (hop L) = Some r \<longrightarrow>
                   fs_url st = resp_url r \<and> fs_status st = resp_status r)
         else visited (self s') = []"
        using r'(1,2,3) final k(5) by (simp add: m(2) self'(1) c k(4))
    qed
    moreover have "chain_measure s' < chain_measure s"
      using e(2) by (simp add: chain_measure_def p k(2))
    ultimately show ?thesis ..
  qed
next
  case released
  note e = pool_released [OF released]
  from e(3) chain_invD(2) [OF inv] e(4,5)
  have cnt: "unfinished_tasks (q (self s')) =
           length (items (q (self s'))) + sum_list (map busy (workers s'))" by simp
  have nf: "list_all (\<lambda>t. \<not> failing t) (workers s')"
    using chain_invD(3) [OF inv] by (simp add: released(3) list_all_update)
  have "chain_inv net c0 hop L M s'"
    using inv _ _ _ e(1) cnt nf by (rule chain_inv_same) (simp_all add: released(3) task_done_def)
  with chain_measure_same [OF e(1,2)] show ?thesis by simp
next
  case (failed x)
  from chain_invD(3) [OF inv] failed(1) have "\<not> failing (workers s ! i)"
    by (simp add: list_all_length)
  with failed(2) show ?thesis by simp
qed


lemma chain_inv_crawl:
  "chain_inv net (init e (hop 0) (int M) mt) hop L M (crawl (init e (hop 0) (int M) mt))"
  unfolding chain_inv_def
proof (intro conjI disjI1 exI [of _ 0])
  note cq = crawl_quantities [of e "hop 0" "int M" mt]
  show "root_domain (self (crawl (init e (hop 0) (int M) mt))) =
          root_domain (init e (hop 0) (int M) mt)"
    by (simp add: cq)
  show "unfinished_tasks (q (self (crawl (init e (hop 0) (int M) mt)))) =
          length (items (q (self (crawl (init e (hop 0) (int M) mt))))) +
          sum_list (map busy (workers (crawl (init e (hop 0) (int M) mt))))"
    using cq(3) by (simp add: cq(6) init_fields)
  show "list_all (\<lambda>t. \<not> failing t) (workers (crawl (init e (hop 0) (int M) mt)))"
    by (rule cq)
  show "0 \<le> min L M" by simp
  show "pending (crawl (init e (hop 0) (int M) mt)) = {#(hop 0, int M - int 0)#}"
    by (simp add: cq)
  show "seen_urls (self (crawl (init e (hop 0) (int M) mt))) = hop ` {..0}"
    by (simp add: cq init_fields)
  show "visited (self (crawl (init e (hop 0) (int M) mt))) = []"
    by (simp add: cq init_fields)
qed

lemma chain_measure_crawl:
  "chain_measure (crawl (init e r (int M) mt)) = 3 * (M + 1)"
  by (simp add: chain_measure_def crawl_quantities)

lemma chain_reach:
  assumes it: "set_iteration e" and ch: "chain e c0 net hop L"
    and inv: "chain_inv net c0 hop L M s0" and run: "(step e net ^^ n) s0 s"
  shows "chain_inv net c0 hop L M s \<and> chain_measure s + n \<le> chain_measure s0 \<and>
         length (workers s) = length (workers s0)"
  using run
proof (induction n arbitrary: s)
  case 0
  with inv show ?case by simp
next
  case (Suc n)
  from Suc.prems obtain y where y: "(step e net ^^ n) s0 y" "step e net y s"
    by auto
  from Suc.IH [OF y(1)] have iy: "chain_inv net c0 hop L M y"
    "chain_measure y + n \<le> chain_measure s0" "length (workers y) = length (workers s0)"
    by simp_all
  from y(2) obtain i where i: "work_step e net y i = Some s"
    unfolding step_def by blast
  from chain_step [OF it ch iy(1) i] work_step_length [OF i] iy(2,3)
  show ?case by simp
qed

lemma chain_drains:
  assumes it: "set_iteration e" and ch: "chain e c0 net hop L"
    and inv: "chain_inv net c0 hop L M s" and ws: "workers s \<noteq> []"
  shows "\<exists>n s'. (step e net ^^ n) s s' \<and> drained s'"
  using inv ws
proof (induction "chain_measure s" arbitrary: s rule: less_induct)
  case less
  show ?case
  proof (cases "drained s")
    case True
    then have "(step e net ^^ 0) s s \<and> drained s" by simp
    then show ?thesis by blast
  next
    case False
    from progress [OF chain_invD(2,3) [OF less.prems(1)] less.prems(2) False]
    obtain s1 where st1: "step e net s s1" by blast
    then obtain i where i: "i < length (workers s)" "work_step e net s i = Some s1"
      unfolding step_def by blast
    from chain_step [OF it ch less.prems(1) i(2)]
    have s1: "chain_inv net c0 hop L M s1" "chain_measure s1 < chain_measure s" by simp_all
    from work_step_length [OF i(2)] less.prems(2) have "workers s1 \<noteq> []" by auto
    from less.hyps [OF s1(2,1) this] obtain n s' where
      n: "(step e net ^^ n) s1 s'" "drained s'" by blast
    from st1 n(1) have "(step e net ^^ Suc n) s s'" by (rule relpowp_Suc_I2)
    with n(2) show ?thesis by blast
  qed
qed

lemma chain_drained:
  assumes ch: "chain e c0 net hop L" and inv: "chain_inv net c0 hop L M s" and dr: "drained s"
  shows "seen_urls (self s) = hop ` {..min L M}"
    and "L \<le> M \<Longrightarrow> hop L \<in> seen_urls (self s) \<and>
           (\<exists>st. visited (self s) = [st] \<and>
              (\<forall>r. net (hop L) = Some r \<longrightarrow>
                 fs_url st = resp_url r \<and> fs_status st = resp_status r))"
    and "M < L \<Longrightarrow> hop L \<notin> seen_urls (self s) \<and> hop (Suc M) \<notin> seen_urls (self s) \<and>
           visited (self s) = []"
proof -
  from dr chain_invD(2) [OF inv]
  have z: "items (q (self s)) = []" "sum_list (map busy (workers s)) = 0"
    by (simp_all add: drained_def joined_def)
  then have p: "pending s = {#}"
    by (simp add: pending_def busy_zero_in_flight)
  from inv have fin: "seen_urls (self s) = hop ` {..min L M}"
    "if L \<le> M
         then \<exists>st. visited (self s) = [st] \<and>
                (\<forall>r. net (hop L) = Some r \<longrightarrow>
                   fs_url st = resp_url r \<and> fs_status st = resp_status r)
         else visited (self s) = []"
    unfolding chain_inv_def p by simp_all
  show "seen_urls (self s) = hop ` {..min L M}" by (rule fin)
  show "hop L \<in> seen_urls (self s) \<and>
           (\<exists>st. visited (self s) = [st] \<and>
              (\<forall>r. net (hop L) = Some r \<longrightarrow>
                 fs_url st = resp_url r \<and> fs_status st = resp_status r))" if "L \<le> M"
    using fin that by (simp add: min_absorb1)
  show "hop L \<notin> seen_urls (self s) \<and> hop (Suc M) \<notin> seen_urls (self s) \<and>
           visited (self s) = []" if "M < L"
  proof -
    from ch have inj: "inj_on hop {..L}" by (simp add: chain_def)
    have "hop j \<notin> hop ` {..M}" if "M < j" "j \<le> L" for j
    proof
      assume "hop j \<in> hop ` {..M}"
      then obtain k where k: "k \<le> M" "hop j = hop k" by auto
      with that \<open>M < L\<close> inj have "j = k" by (auto dest!: inj_onD [where x = j and y = k])
      with k(1) that(1) show False by simp
    qed
    from this [of L] this [of "Suc M"] that fin show ?thesis
      by (simp add: min_absorb2)
  qed
qed

text \<open>
  C3. Let the root be the first URL of a chain of \<open>L\<close> redirects between distinct URLs
  that ends in a page without links, and let the crawl be configured with
  \<^verbatim>\<open>max_redirect\<close> \<open>M\<close>. From the pool that \<^verbatim>\<open>crawl\<close> starts, whichever task runs
  next at each step: the crawl reaches a state in which \<^verbatim>\<open>q.join()\<close> returns, after
  at most \<open>3 * (M + 1)\<close> steps and without deadlock; the item for the \<open>k\<close>-th URL of the
  chain carries the budget \<open>M - k\<close>; and when \<^verbatim>\<open>q.join()\<close> returns, the URLs seen are
  the first \<open>min L M + 1\<close> of the chain. If \<open>L \<le> M\<close> the last URL has been fetched and
  the one statistic recorded is that of its response. If \<open>M < L\<close> the chain was dropped
  at the URL whose budget is zero: the next URL and the last one were never admitted
  and no statistic is recorded.
\<close>

theorem redirect_chain:
  assumes "set_iteration e" and "0 < mt"
    and "chain e (init e (hop 0) (int M) mt) net hop L"
  shows "(\<exists>n s. (step e net ^^ n) (crawl (init e (hop 0) (int M) mt)) s \<and> drained s) \<and>
    (\<forall>n s. (step e net ^^ n) (crawl (init e (hop 0) (int M) mt)) s \<longrightarrow>
       n \<le> 3 * (M + 1) \<and>
       (\<forall>u b. (u, b) \<in># pending s \<longrightarrow> (\<exists>k \<le> min L M. u = hop k \<and> b = int M - int k)) \<and>
       (\<not> drained s \<longrightarrow> (\<exists>s'. step e net s s')) \<and>
       (drained s \<longrightarrow>
          seen_urls (self s) = hop ` {..min L M} \<and>
          (L \<le> M \<longrightarrow> hop L \<in> seen_urls (self s) \<and>
             (\<exists>st. visited (self s) = [st] \<and>
                (\<forall>r. net (hop L) = Some r \<longrightarrow>
                   fs_url st = resp_url r \<and> fs_status st = resp_status r))) \<and>
          (M < L \<longrightarrow> hop L \<notin> seen_urls (self s) \<and> hop (Suc M) \<notin> seen_urls (self s) \<and>
             visited (self s) = [])))"
proof (intro conjI allI impI)
  from assms(2) have ws: "workers (crawl (init e (hop 0) (int M) mt)) \<noteq> []"
    using crawl_quantities(5) [of e "hop 0" "int M" mt] by auto
  from chain_drains [OF assms(1,3) chain_inv_crawl ws]
  show "\<exists>n s. (step e net ^^ n) (crawl (init e (hop 0) (int M) mt)) s \<and> drained s" .
next
  fix n s
  assume run: "(step e net ^^ n) (crawl (init e (hop 0) (int M) mt)) s"
  note r = chain_reach [OF assms(1,3) chain_inv_crawl run]
  from r have inv: "chain_inv net (init e (hop 0) (int M) mt) hop L M s" by simp
  from r show "n \<le> 3 * (M + 1)" by (simp add: chain_measure_crawl)
  from r assms(2) have ws: "workers s \<noteq> []"
    using crawl_quantities(5) [of e "hop 0" "int M" mt] by auto
  {
    fix u b
    assume "(u, b) \<in># pending s"
    with inv show "\<exists>k \<le> min L M. u = hop k \<and> b = int M - int k"
      by (rule chain_pending) blast
  }
  {
    assume "\<not> drained s"
    with inv ws show "\<exists>s'. step e net s s'"
      using progress chain_invD(2,3) by blast
  }
  {
    assume dr: "drained s"
    note f = chain_drained [OF assms(3) inv dr]
    show "seen_urls (self s) = hop ` {..min L M}" by (rule f)
    {
      assume "L \<le> M"
      from f(2) [OF this]
      show "hop L \<in> seen_urls (self s)"
        "\<exists>st. visited (self s) = [st] \<and>
                (\<forall>r. net (hop L) = Some r \<longrightarrow>
                   fs_url st = resp_url r \<and> fs_status st = resp_status r)" by simp_all
    }
    {
      assume "M < L"
      from f(3) [OF this]
      show "hop L \<notin> seen_urls (self s)" "hop (Suc M) \<notin> seen_urls (self s)"
        "visited (self s) = []" by simp_all
    }
  }
qed


text \<open>The example chain.\<close>

lemma hops_simps:
  "hops 0 = ''http://example.com/''" "hops (Suc 0) = ''http://example.com/1''"
  "hops 2 = ''http://example.com/2''" "hops (Suc (Suc 0)) = ''http://example.com/2''"
  by (simp_all add: hops_def)

lemma hop_site_redirects:
  "redirects_to example_env hop_site ''http://example.com/'' ''http://example.com/1''"
  "redirects_to example_env hop_site ''http://example.com/1'' ''http://example.com/2''"
  by (simp_all add: redirects_to_def hop_site_def redirect_def is_redirect_def example_defs)

lemma hop_site_chain: "chain example_env c hop_site hops 2"
  unfolding chain_def
proof (intro conjI allI impI)
  have "{..2::nat} = {0, Suc 0, 2}" by auto
  then show "inj_on hops {..2}"
    by (simp add: hops_simps)
  show "redirects_to example_env hop_site (hops k) (hops (Suc k))" if "k < 2" for k
  proof -
    from that consider "k = 0" | "k = Suc 0" by linarith
    then show ?thesis
      by cases (simp_all add: hops_simps hop_site_redirects)
  qed
  show "leads_to example_env c hop_site (hops 2) {}"
    by (simp add: leads_to_def hop_site_def hops_simps links_leaf)
       (simp add: is_redirect_def page_def)
qed

theorem redirect_chain_witness:
  "set_iteration example_env \<and>
   chain example_env (init example_env (hops 0) (int 2) 1) hop_site hops 2 \<and>
   (\<exists>n s. (step example_env hop_site ^^ n) (crawl (init example_env (hops 0) (int 2) 1)) s \<and>
      drained s \<and> length (visited (self s)) = 1 \<and>
      ''http://example.com/2'' \<in> seen_urls (self s)) \<and>
   chain example_env (init example_env (hops 0) (int 1) 1) hop_site hops 2 \<and>
   (\<exists>n s. (step example_env hop_site ^^ n) (crawl (init example_env (hops 0) (int 1) 1)) s \<and>
      drained s \<and> visited (self s) = [] \<and>
      ''http://example.com/2'' \<notin> seen_urls (self s))"
proof -
  have mt: "(0::int) < 1" by simp
  note t2 = redirect_chain [OF set_iteration_example mt hop_site_chain, of 2]
  note t1 = redirect_chain [OF set_iteration_example mt hop_site_chain, of 1]
  from t2 obtain n s where a: "(step example_env hop_site ^^ n)
      (crawl (init example_env (hops 0) (int 2) 1)) s" "drained s" by blast
  with t2 have "hops 2 \<in> seen_urls (self s) \<and> (\<exists>st. visited (self s) = [st])"
    by fastforce
  then have a': "length (visited (self s)) = 1" "''http://example.com/2'' \<in> seen_urls (self s)"
    by (auto simp: hops_simps)
  from t1 obtain n' s' where b: "(step example_env hop_site ^^ n')
      (crawl (init example_env (hops 0) (int 1) 1)) s'" "drained s'" by blast
  with t1 have "hops 2 \<notin> seen_urls (self s') \<and> visited (self s') = []"
    by fastforce
  then have b': "visited (self s') = []" "''http://example.com/2'' \<notin> seen_urls (self s')"
    by (auto simp: hops_simps)
  from a a' b b' set_iteration_example hop_site_chain show ?thesis by blast
qed

end
